theory Spec2Isabelle
  imports Complex_Main "HOL-Library.AList" "HOL-Library.Char_ord" "HOL-Library.List_Lexorder" "HOL-Library.Sublist"
begin

text \<open>
  A model of \<open>organize_files_into_batches\<close> in \<open>generic_batch_organiser.py\<close>: the function
  pairs the text files of a directory with their images, cuts the sorted pair list into
  batches, copies or moves each batch into a numbered folder and writes the texts of the
  batch, joined by a separator, into one file of that folder. The printed messages are
  left out; every return and every exception is an outcome of the model.
\<close>

section \<open>Partitioning the pair list into batches\<close>

text \<open>
  Python integers are unbounded, so they are \<open>int\<close>; \<open>//\<close> is floor division, which is
  \<open>div\<close> on \<open>int\<close>. The division by zero that Python raises is a branch of the caller
  (\<open>organize_files_into_batches\<close> below), not of \<open>num_batches\<close>.
\<close>

definition num_batches :: "int \<Rightarrow> int \<Rightarrow> int" where
  "num_batches len batch_size = (len + batch_size - 1) div batch_size"

text \<open>
  A slice \<open>xs[start:end]\<close> with Python's rules: a negative index counts from the end,
  and both indices are clamped to the list.
\<close>

definition slice_index :: "int \<Rightarrow> int \<Rightarrow> nat" where
  "slice_index len i = (if i < 0 then nat (max (i + len) 0) else nat (min i len))"

definition py_slice :: "'a list \<Rightarrow> int \<Rightarrow> int \<Rightarrow> 'a list" where
  "py_slice xs start end =
     (let s = slice_index (int (length xs)) start;
          e = slice_index (int (length xs)) end
      in take (e - s) (drop s xs))"

definition batch_pairs :: "'a list \<Rightarrow> int \<Rightarrow> nat \<Rightarrow> 'a list" where
  "batch_pairs file_pairs batch_size batch_num =
     (let start_idx = int batch_num * batch_size;
          end_idx = min (start_idx + batch_size) (int (length file_pairs))
      in py_slice file_pairs start_idx end_idx)"

text \<open>The batch numbers that \<open>for batch_num in range(num_batches)\<close> visits.\<close>

definition batch_range :: "'a list \<Rightarrow> int \<Rightarrow> nat list" where
  "batch_range file_pairs batch_size =
     [0 ..< nat (num_batches (int (length file_pairs)) batch_size)]"

definition batches :: "'a list \<Rightarrow> int \<Rightarrow> 'a list list" where
  "batches file_pairs batch_size =
     map (batch_pairs file_pairs batch_size) (batch_range file_pairs batch_size)"

section \<open>The file system below the source directory\<close>

text \<open>
  The state of a run is the file-system tree at \<open>source_dir\<close>: \<open>None\<close> when the path does
  not exist. A directory is an association list from entry names to nodes, read with
  \<open>map_of\<close>; a path is the list of names below the source directory. A file holds either
  text (what a read in text mode returns for it) or bytes that do not decode as UTF-8.
  Time stamps, permissions and links are not part of the state. \<open>folder_prefix\<close>,
  \<open>combined_name\<close> and the two extensions are used as (parts of) one entry name, as in
  every documented call; the model says nothing about strings that hold a path separator.
  Entry names are within the limits of the operating system, so that a test for existence
  returns and does not raise, and \<open>combined_name\<close> is not the empty string, with which
  the path of the combined file would be the batch folder itself.
\<close>

datatype content = Text string | Bytes string

datatype node = File content | Dir "(string \<times> node) list"

datatype py_error =
    ZeroDivisionError | ValueError | FileNotFoundError | FileExistsError
  | IsADirectoryError | NotADirectoryError | UnicodeDecodeError | ShutilError

type_synonym path = "string list"

fun entry :: "node \<Rightarrow> string \<Rightarrow> node option" where
  "entry (Dir es) x = map_of es x"
| "entry (File c) x = None"

fun lookup :: "node \<Rightarrow> path \<Rightarrow> node option" where
  "lookup n [] = Some n"
| "lookup n (x # p) = (case entry n x of None \<Rightarrow> None | Some m \<Rightarrow> lookup m p)"

definition path_exists :: "node \<Rightarrow> path \<Rightarrow> bool" where
  "path_exists n p = (lookup n p \<noteq> None)"

definition is_dir :: "node \<Rightarrow> path \<Rightarrow> bool" where
  "is_dir n p = (case lookup n p of Some (Dir es) \<Rightarrow> True | _ \<Rightarrow> False)"

text \<open>Writing a node at a path whose parent must be an existing directory.\<close>

fun put :: "node \<Rightarrow> path \<Rightarrow> node \<Rightarrow> py_error + node" where
  "put n [] v = Inr v"
| "put (File c) (x # p) v = Inl NotADirectoryError"
| "put (Dir es) [x] v = Inr (Dir (AList.update x v es))"
| "put (Dir es) (x # y # p) v =
     (case map_of es x of
        None \<Rightarrow> Inl FileNotFoundError
      | Some m \<Rightarrow>
          (case put m (y # p) v of
             Inl e \<Rightarrow> Inl e
           | Inr m' \<Rightarrow> Inr (Dir (AList.update x m' es))))"

fun remove :: "node \<Rightarrow> path \<Rightarrow> node" where
  "remove (Dir es) [x] = Dir (AList.delete x es)"
| "remove (Dir es) (x # y # p) =
     (case map_of es x of
        None \<Rightarrow> Dir es
      | Some m \<Rightarrow> Dir (AList.update x (remove m (y # p)) es))"
| "remove n p = n"

subsection \<open>The library calls the program makes\<close>

text \<open>\<open>Path.mkdir(exist_ok=True)\<close>: an existing directory is kept, an existing file raises.\<close>

definition mkdir_exist_ok :: "node \<Rightarrow> path \<Rightarrow> py_error + node" where
  "mkdir_exist_ok n p =
     (case lookup n p of
        Some (Dir es) \<Rightarrow> Inr n
      | Some (File c) \<Rightarrow> Inl FileExistsError
      | None \<Rightarrow> put n p (Dir []))"

text \<open>
  \<open>shutil.copy2(src, dst)\<close>: a destination that is a directory receives the file under the
  source's base name; the source must be a regular file.
\<close>

definition copy2 :: "node \<Rightarrow> path \<Rightarrow> path \<Rightarrow> py_error + node" where
  "copy2 n src dst =
     (let real_dst = (if is_dir n dst then dst @ [last src] else dst) in
      case lookup n src of
        None \<Rightarrow> Inl FileNotFoundError
      | Some (Dir es) \<Rightarrow> Inl IsADirectoryError
      | Some (File c) \<Rightarrow>
          (case lookup n real_dst of
             Some (Dir es) \<Rightarrow> Inl IsADirectoryError
           | _ \<Rightarrow> put n real_dst (File c)))"

text \<open>
  \<open>shutil.move(src, dst)\<close> within one file system: a destination that is a directory
  receives the source under its base name and must not hold that name yet; otherwise the
  source is renamed onto the destination, replacing a file there. A directory is not
  moved into itself nor onto a file. The program moves into a batch folder it has just
  made sure of, so the parent of the destination exists at every call.
\<close>

definition move :: "node \<Rightarrow> path \<Rightarrow> path \<Rightarrow> py_error + node" where
  "move n src dst =
     (let real_dst = (if is_dir n dst then dst @ [last src] else dst) in
      if is_dir n dst \<and> path_exists n real_dst then Inl ShutilError
      else
        (case lookup n src of
           None \<Rightarrow> Inl FileNotFoundError
         | Some (File c) \<Rightarrow> put (remove n src) real_dst (File c)
         | Some (Dir es) \<Rightarrow>
             if prefix src real_dst then Inl ShutilError
             else if path_exists n real_dst then Inl FileExistsError
             else put (remove n src) real_dst (Dir es)))"

text \<open>\<open>open(p, 'r', encoding='utf-8').read()\<close>.\<close>

fun decode :: "content \<Rightarrow> py_error + string" where
  "decode (Text s) = Inr s"
| "decode (Bytes b) = Inl UnicodeDecodeError"

definition read_text :: "node \<Rightarrow> path \<Rightarrow> py_error + string" where
  "read_text n p =
     (case lookup n p of
        None \<Rightarrow> Inl FileNotFoundError
      | Some (Dir es) \<Rightarrow> Inl IsADirectoryError
      | Some (File c) \<Rightarrow> decode c)"

text \<open>\<open>open(p, 'w')\<close> creates the file or truncates it.\<close>

definition open_w :: "node \<Rightarrow> path \<Rightarrow> py_error + node" where
  "open_w n p =
     (case lookup n p of
        Some (Dir es) \<Rightarrow> Inl IsADirectoryError
      | _ \<Rightarrow> put n p (File (Text [])))"

text \<open>Leaving the \<open>with\<close> block closes the file: everything written is on disk.\<close>

definition close_w :: "node \<Rightarrow> path \<Rightarrow> string list \<Rightarrow> node" where
  "close_w n p writes =
     (case put n p (File (Text (concat writes))) of Inr n' \<Rightarrow> n' | Inl e \<Rightarrow> n)"

text \<open>
  \<open>PurePath.suffix\<close> and \<open>PurePath.with_suffix\<close> of pathlib (CPython 3.8 to 3.12, POSIX
  flavour), on the final path component.
\<close>

definition rfind :: "char \<Rightarrow> string \<Rightarrow> int" where
  "rfind c name =
     (if c \<in> set name
      then int (length name) - 1 - int (length (takeWhile (\<lambda>d. d \<noteq> c) (rev name)))
      else - 1)"

definition path_suffix :: "string \<Rightarrow> string" where
  "path_suffix name =
     (let i = rfind (CHR ''.'') name
      in if 0 < i \<and> i < int (length name) - 1 then drop (nat i) name else [])"

definition with_suffix :: "string \<Rightarrow> string \<Rightarrow> py_error + string" where
  "with_suffix name sfx =
     (if CHR ''/'' \<in> set sfx then Inl ValueError
      else if (sfx \<noteq> [] \<and> \<not> prefix ''.'' sfx) \<or> sfx = ''.'' then Inl ValueError
      else if name = [] then Inl ValueError
      else
        (let old_suffix = path_suffix name
         in if old_suffix = [] then Inr (name @ sfx)
            else Inr (take (length name - length old_suffix) name @ sfx)))"

text \<open>
  \<open>Path.glob(pattern)\<close> with a pattern of one component: the entries of the directory
  whose name matches, none when the path is not a directory. The matcher
  (\<open>fnmatch\<close>: name, then pattern) is a parameter. The text extension does not begin
  with \<open>*\<close>: the pattern \<open>**\<close> yields the directory itself, whose name can be empty, and
  \<open>glob\<close> rejects a longer component that begins with \<open>**\<close>; neither is part of the
  model.
\<close>

fun iterdir :: "node \<Rightarrow> string list" where
  "iterdir (Dir es) = remdups (map fst es)"
| "iterdir (File c) = []"

definition glob :: "(string \<Rightarrow> string \<Rightarrow> bool) \<Rightarrow> node \<Rightarrow> string \<Rightarrow> string list" where
  "glob fnm n pattern = filter (\<lambda>name. fnm name pattern) (iterdir n)"

text \<open>
  The matcher for patterns \<open>*ext\<close> in which \<open>ext\<close> holds no wildcard: the name ends
  in \<open>ext\<close>.
\<close>

definition star_match :: "string \<Rightarrow> string \<Rightarrow> bool" where
  "star_match name pattern =
     (case pattern of [] \<Rightarrow> False | c # ext \<Rightarrow> c = CHR ''*'' \<and> suffix ext name)"

section \<open>The program\<close>

text \<open>
  The loop of lines 34 to 39: the image name is the text name with its suffix replaced;
  a pair is kept when the image exists. The warning printed for an unmatched text file
  is not part of the state.
\<close>

fun pair_loop ::
  "node \<Rightarrow> string \<Rightarrow> string list \<Rightarrow> (string \<times> string) list
     \<Rightarrow> py_error + (string \<times> string) list" where
  "pair_loop n image_ext [] file_pairs = Inr file_pairs"
| "pair_loop n image_ext (text_file # rest) file_pairs =
     (case with_suffix text_file image_ext of
        Inl e \<Rightarrow> Inl e
      | Inr image_file \<Rightarrow>
          pair_loop n image_ext rest
            (if path_exists n [image_file]
             then file_pairs @ [(text_file, image_file)] else file_pairs))"

definition discover ::
  "(string \<Rightarrow> string \<Rightarrow> bool) \<Rightarrow> node \<Rightarrow> string \<Rightarrow> string
     \<Rightarrow> py_error + (string \<times> string) list" where
  "discover fnm n text_ext image_ext =
     (let text_files = sort (glob fnm n (''*'' @ text_ext))
      in pair_loop n image_ext text_files [])"

text \<open>The folder name \<open>f"{folder_prefix}_{batch_num + 1:02d}"\<close>.\<close>

fun decimal :: "nat \<Rightarrow> string" where
  "decimal k =
     (if k < 10 then [''0123456789'' ! k]
      else decimal (k div 10) @ [''0123456789'' ! (k mod 10)])"

definition zero_pad2 :: "string \<Rightarrow> string" where
  "zero_pad2 s = replicate (2 - length s) (CHR ''0'') @ s"

definition folder_name :: "string \<Rightarrow> nat \<Rightarrow> string" where
  "folder_name folder_prefix batch_num =
     folder_prefix @ ''_'' @ zero_pad2 (decimal (batch_num + 1))"

text \<open>
  Lines 71 to 77. A loop that changes the file system returns the error it stopped at,
  if any, with the state reached: a failed run leaves its earlier effects behind.
\<close>

definition transfer :: "bool \<Rightarrow> node \<Rightarrow> path \<Rightarrow> path \<Rightarrow> py_error + node" where
  "transfer move_files n src dst =
     (if move_files then move n src dst else copy2 n src dst)"

fun transfer_pairs ::
  "bool \<Rightarrow> string \<Rightarrow> (string \<times> string) list \<Rightarrow> node \<Rightarrow> py_error option \<times> node" where
  "transfer_pairs move_files folder [] n = (None, n)"
| "transfer_pairs move_files folder ((text_file, image_file) # rest) n =
     (case transfer move_files n [text_file] [folder, text_file] of
        Inl e \<Rightarrow> (Some e, n)
      | Inr n1 \<Rightarrow>
          (case transfer move_files n1 [image_file] [folder, image_file] of
             Inl e \<Rightarrow> (Some e, n1)
           | Inr n2 \<Rightarrow> transfer_pairs move_files folder rest n2))"

text \<open>
  Lines 83 to 91. The output file is buffered: while it is open, what a reader of its own
  path finds on disk depends on the write calls made so far and on the buffering, which
  is the parameter \<open>disk_view\<close>. Every other path is read from the file system, which the
  loop does not change. The loop returns the strings written, in order.
\<close>

definition separator :: string where
  "separator = [CHR 0x0A] @ ''TRP_PAGEBREAK'' @ [CHR 0x0A]"

definition read_while_open ::
  "(string list \<Rightarrow> content) \<Rightarrow> node \<Rightarrow> path \<Rightarrow> string list \<Rightarrow> path \<Rightarrow> py_error + string" where
  "read_while_open disk_view n combined_file writes p =
     (if p = combined_file then decode (disk_view writes) else read_text n p)"

fun concat_loop ::
  "(string list \<Rightarrow> content) \<Rightarrow> node \<Rightarrow> string \<Rightarrow> path \<Rightarrow> nat \<Rightarrow> nat
     \<Rightarrow> (string \<times> string) list \<Rightarrow> string list \<Rightarrow> py_error option \<times> string list" where
  "concat_loop disk_view n folder combined_file len i [] writes = (None, writes)"
| "concat_loop disk_view n folder combined_file len i ((text_file, image_file) # rest) writes =
     (case read_while_open disk_view n combined_file writes [folder, text_file] of
        Inl e \<Rightarrow> (Some e, writes)
      | Inr content \<Rightarrow>
          concat_loop disk_view n folder combined_file len (i + 1) rest
            (if int i < int len - 1 then writes @ [content, separator]
             else writes @ [content]))"

definition concatenate ::
  "(string list \<Rightarrow> content) \<Rightarrow> string \<Rightarrow> string \<Rightarrow> (string \<times> string) list \<Rightarrow> node
     \<Rightarrow> py_error option \<times> node" where
  "concatenate disk_view folder combined_name batch n =
     (let combined_file = [folder, combined_name] in
      case open_w n combined_file of
        Inl e \<Rightarrow> (Some e, n)
      | Inr n0 \<Rightarrow>
          (case concat_loop disk_view n0 folder combined_file (length batch) 0 batch [] of
             (err, writes) \<Rightarrow> (err, close_w n0 combined_file writes)))"

text \<open>The body of the loop over the batch numbers, lines 55 to 93.\<close>

definition process_batch ::
  "(string list \<Rightarrow> content) \<Rightarrow> bool \<Rightarrow> string \<Rightarrow> string \<Rightarrow> (string \<times> string) list \<Rightarrow> int
     \<Rightarrow> nat \<Rightarrow> node \<Rightarrow> py_error option \<times> node" where
  "process_batch disk_view move_files folder_prefix combined_name file_pairs batch_size
       batch_num n =
     (let folder = folder_name folder_prefix batch_num in
      case mkdir_exist_ok n [folder] of
        Inl e \<Rightarrow> (Some e, n)
      | Inr n1 \<Rightarrow>
          (let batch = batch_pairs file_pairs batch_size batch_num in
           case transfer_pairs move_files folder batch n1 of
             (Some e, n2) \<Rightarrow> (Some e, n2)
           | (None, n2) \<Rightarrow> concatenate disk_view folder combined_name batch n2))"

fun process_batches ::
  "(string list \<Rightarrow> content) \<Rightarrow> bool \<Rightarrow> string \<Rightarrow> string \<Rightarrow> (string \<times> string) list \<Rightarrow> int
     \<Rightarrow> nat list \<Rightarrow> node \<Rightarrow> py_error option \<times> node" where
  "process_batches disk_view move_files folder_prefix combined_name file_pairs batch_size
       [] n = (None, n)"
| "process_batches disk_view move_files folder_prefix combined_name file_pairs batch_size
       (batch_num # rest) n =
     (case process_batch disk_view move_files folder_prefix combined_name file_pairs
             batch_size batch_num n of
        (Some e, n') \<Rightarrow> (Some e, n')
      | (None, n') \<Rightarrow>
          process_batches disk_view move_files folder_prefix combined_name file_pairs
            batch_size rest n')"

text \<open>
  The three ways the function returns, each after its own message, and the exception
  that ends it otherwise.
\<close>

datatype outcome = NoDirectory | NoPairs | Completed | Raised py_error

definition organize_files_into_batches ::
  "(string \<Rightarrow> string \<Rightarrow> bool) \<Rightarrow> (string list \<Rightarrow> content) \<Rightarrow> node option \<Rightarrow> int \<Rightarrow> string
     \<Rightarrow> string \<Rightarrow> string \<Rightarrow> string \<Rightarrow> bool \<Rightarrow> outcome \<times> node option" where
  "organize_files_into_batches fnm disk_view fs batch_size folder_prefix text_ext image_ext
       combined_name move_files =
     (case fs of
        None \<Rightarrow> (NoDirectory, fs)
      | Some n \<Rightarrow>
          (case discover fnm n text_ext image_ext of
             Inl e \<Rightarrow> (Raised e, fs)
           | Inr file_pairs \<Rightarrow>
               if file_pairs = [] then (NoPairs, fs)
               else if batch_size = 0 then (Raised ZeroDivisionError, fs)
               else
                 (case process_batches disk_view move_files folder_prefix combined_name
                         file_pairs batch_size (batch_range file_pairs batch_size) n of
                    (Some e, n') \<Rightarrow> (Raised e, Some n')
                  | (None, n') \<Rightarrow> (Completed, Some n'))))"

section \<open>Notions used in the claims on the combined file\<close>




section \<open>Notions used in the proofs\<close>

text \<open>
  Where a transfer into the folder node \<open>m\<close> under the name \<open>y\<close> lands: below \<open>y\<close>
  when that is a directory, at \<open>y\<close> otherwise.
\<close>

definition landing :: "node \<Rightarrow> string \<Rightarrow> string \<Rightarrow> path" where
  "landing m y x = (if is_dir m [y] then [y, x] else [y])"

text \<open>
  The relation that a run in copy mode and a run in move mode keep between their states:
  every entry of the source directory is the same in both, or is a file that only the
  copy run still has.
\<close>

definition mirrors :: "node \<Rightarrow> node \<Rightarrow> bool" where
  "mirrors c m =
     (\<forall>x. entry m x = entry c x \<or> (entry m x = None \<and> (\<exists>t. entry c x = Some (File t))))"


text \<open>
  What a run keeps when no file it moves bears a name of the set \<open>F\<close> of folder names: a
  name outside \<open>F\<close> that is absent from the source directory stays absent, and an entry
  of a folder of \<open>F\<close> stays.
\<close>

definition keeps :: "string set \<Rightarrow> node \<Rightarrow> node \<Rightarrow> bool" where
  "keeps F n n' =
     ((\<forall>x. x \<notin> F \<longrightarrow> entry n x = None \<longrightarrow> entry n' x = None)
      \<and> (\<forall>b y. b \<in> F \<longrightarrow> path_exists n [b, y] \<longrightarrow> path_exists n' [b, y]))"

text \<open>A pair that has left the source directory for the folder \<open>b\<close>.\<close>

definition moved_into :: "node \<Rightarrow> string \<Rightarrow> string \<times> string \<Rightarrow> bool" where
  "moved_into n b p =
     (\<not> path_exists n [fst p] \<and> \<not> path_exists n [snd p]
      \<and> path_exists n [b, fst p] \<and> path_exists n [b, snd p])"


text \<open>
  The number that a string of decimal digits writes, by which a folder name gives its
  batch number back.
\<close>

definition digit_value :: "char \<Rightarrow> nat" where
  "digit_value c = of_char c - 48"

definition decimal_value :: "string \<Rightarrow> nat" where
  "decimal_value s = foldl (\<lambda>a c. 10 * a + digit_value c) 0 s"

section \<open>A small source directory\<close>

text \<open>
  Three complete pairs and one text file without an image, listed out of order.
\<close>

definition example_dir :: node where
  "example_dir =
     Dir [(''b.txt'', File (Text ''B'')), (''b.jpg'', File (Bytes ''2'')),
          (''a.txt'', File (Text ''A'')), (''a.jpg'', File (Bytes ''1'')),
          (''c.txt'', File (Text ''C'')),
          (''d.txt'', File (Text ''D'')), (''d.jpg'', File (Bytes ''3''))]"

definition example_pairs :: "(string \<times> string) list" where
  "example_pairs = [(''a.txt'', ''a.jpg''), (''b.txt'', ''b.jpg''), (''d.txt'', ''d.jpg'')]"

text \<open>The states that the two modes reach from it with batches of two.\<close>

definition example_copied :: node where
  "example_copied =
     Dir [(''b.txt'', File (Text ''B'')), (''b.jpg'', File (Bytes ''2'')),
          (''a.txt'', File (Text ''A'')), (''a.jpg'', File (Bytes ''1'')),
          (''c.txt'', File (Text ''C'')),
          (''d.txt'', File (Text ''D'')), (''d.jpg'', File (Bytes ''3'')),
          (''Batch_01'',
             Dir [(''a.txt'', File (Text ''A'')), (''a.jpg'', File (Bytes ''1'')),
                  (''b.txt'', File (Text ''B'')), (''b.jpg'', File (Bytes ''2'')),
                  (''combined.txt'', File (Text (''A'' @ separator @ ''B'')))]),
          (''Batch_02'',
             Dir [(''d.txt'', File (Text ''D'')), (''d.jpg'', File (Bytes ''3'')),
                  (''combined.txt'', File (Text ''D''))])]"

definition example_moved :: node where
  "example_moved =
     Dir [(''c.txt'', File (Text ''C'')),
          (''Batch_01'',
             Dir [(''a.txt'', File (Text ''A'')), (''a.jpg'', File (Bytes ''1'')),
                  (''b.txt'', File (Text ''B'')), (''b.jpg'', File (Bytes ''2'')),
                  (''combined.txt'', File (Text (''A'' @ separator @ ''B'')))]),
          (''Batch_02'',
             Dir [(''d.txt'', File (Text ''D'')), (''d.jpg'', File (Bytes ''3'')),
                  (''combined.txt'', File (Text ''D''))])]"

text \<open>A directory with one complete pair, and one with a text file that has no image.\<close>

definition single_pair_dir :: node where
  "single_pair_dir =
     Dir [(''a.txt'', File (Text ''A'')), (''a.jpg'', File (Bytes ''1''))]"

definition unmatched_dir :: node where
  "unmatched_dir = Dir [(''c.txt'', File (Text ''C''))]"







text \<open>
  The buffering of a short output: nothing reaches the disk before the file is closed.
\<close>

definition all_buffered :: "string list \<Rightarrow> content" where
  "all_buffered writes = Text []"

section \<open>Properties of the partitioning\<close>

lemma slice_window:
  "py_slice xs (int s) (min (int s + int b) (int (length xs))) = take b (drop s xs)"
  by (cases "s \<le> length xs")
     (auto simp add: py_slice_def slice_index_def Let_def min_def nat_add_distrib)

lemma batch_pairs_pos:
  assumes "0 < batch_size"
  shows "batch_pairs xs batch_size k = take (nat batch_size) (drop (k * nat batch_size) xs)"
proof -
  obtain b where b: "batch_size = int b"
    using assms by (metis pos_int_cases)
  have "int k * int b = int (k * b)" by simp
  then show ?thesis
    unfolding batch_pairs_def Let_def b by (simp only: slice_window nat_int)
qed

lemma num_batches_bounds:
  assumes "0 < b"
  shows "l \<le> num_batches l b * b" and "(num_batches l b - 1) * b < l"
proof -
  define z where "z = (l + b - 1) div b"
  define r where "r = (l + b - 1) mod b"
  have eq: "z * b + r = l + b - 1" by (simp add: z_def r_def)
  have r: "0 \<le> r" "r < b" using assms by (simp_all add: r_def)
  have z: "num_batches l b = z" by (simp add: num_batches_def z_def)
  have "(z - 1) * b = z * b - b" by (simp add: algebra_simps)
  with eq r show "l \<le> num_batches l b * b" "(num_batches l b - 1) * b < l"
    unfolding z by linarith+
qed

lemma num_batches_ceiling:
  assumes "0 < b"
  shows "num_batches l b = \<lceil>real_of_int l / real_of_int b\<rceil>"
proof -
  let ?z = "num_batches l b"
  have 1: "real_of_int l \<le> real_of_int ?z * real_of_int b"
    using num_batches_bounds(1) [OF assms, of l] by (metis of_int_le_iff of_int_mult)
  have 2: "(real_of_int ?z - 1) * real_of_int b < real_of_int l"
    using num_batches_bounds(2) [OF assms, of l]
    by (metis of_int_less_iff of_int_mult of_int_diff of_int_1)
  have "\<lceil>real_of_int l / real_of_int b\<rceil> = ?z"
    by (rule ceiling_unique) (use assms 1 2 in \<open>simp_all add: field_simps\<close>)
  then show ?thesis by simp
qed

lemma batch_count_bounds:
  fixes l b :: nat
  assumes "0 < b"
  defines "m \<equiv> nat (num_batches (int l) (int b))"
  shows "l \<le> m * b" and "0 < l \<Longrightarrow> 0 < m \<and> (m - 1) * b < l"
proof -
  let ?z = "num_batches (int l) (int b)"
  have b: "0 < int b" using assms by simp
  have up: "int l \<le> ?z * int b" and lo: "(?z - 1) * int b < int l"
    using num_batches_bounds [OF b, of "int l"] by simp_all
  have z0: "0 \<le> ?z"
  proof (rule ccontr)
    assume "\<not> 0 \<le> ?z"
    then have "?z * int b < 0" using b by (simp add: mult_less_0_iff)
    with up show False by simp
  qed
  then have zm: "?z = int m" by (simp add: m_def)
  from up show "l \<le> m * b" unfolding zm by (metis of_nat_mult of_nat_le_iff)
  show "0 < m \<and> (m - 1) * b < l" if "0 < l"
  proof -
    have "m \<noteq> 0"
    proof
      assume "m = 0"
      with up that show False unfolding zm by simp
    qed
    then have pos: "0 < m" by simp
    then have m1: "int (m - 1) = int m - 1" by simp
    have "int ((m - 1) * b) = (int m - 1) * int b"
      unfolding of_nat_mult m1 ..
    also have "\<dots> < int l" using lo unfolding zm .
    finally have "(m - 1) * b < l" by (simp only: of_nat_less_iff)
    with pos show ?thesis by simp
  qed
qed

lemma concat_slices:
  "concat (map (\<lambda>k. take b (drop (k * b) xs)) [0..<m]) = take (m * b) xs"
proof (induction m)
  case 0
  then show ?case by simp
next
  case (Suc m)
  have "take (m * b) xs @ take b (drop (m * b) xs) = take (m * b + b) xs"
    by (simp add: take_add)
  with Suc show ?case by (simp add: add.commute)
qed

lemma concat_batches:
  assumes "0 < batch_size"
  shows "concat (batches xs batch_size) = xs"
proof -
  obtain b where b: "batch_size = int b" "0 < b"
    using assms by (metis pos_int_cases of_nat_0_less_iff)
  let ?m = "nat (num_batches (int (length xs)) (int b))"
  have bp: "batch_pairs xs (int b) = (\<lambda>k. take b (drop (k * b) xs))"
    using batch_pairs_pos [of "int b" xs] b(2) by (simp add: fun_eq_iff)
  have "concat (batches xs batch_size) = take (?m * b) xs"
    unfolding batches_def batch_range_def b(1) bp by (rule concat_slices)
  also have "\<dots> = xs"
    using batch_count_bounds(1) [OF b(2), of "length xs"] by simp
  finally show ?thesis .
qed

lemma batches_disjoint:
  assumes "distinct xs" and "j < k"
  shows "set (take b (drop (j * b) xs)) \<inter> set (take b (drop (k * b) xs)) = {}"
proof -
  have "j * b + b \<le> k * b"
    using assms(2) by (metis Suc_leI mult_Suc mult_le_mono1 add.commute)
  then have "set (take (j * b + b) xs) \<inter> set (drop (k * b) xs) = {}"
    using assms(1) by (rule set_take_disj_set_drop_if_distinct [rotated])
  moreover have "set (take b (drop (j * b) xs)) \<subseteq> set (take (j * b + b) xs)"
    by (metis take_add Un_upper2 set_append add.commute)
  moreover have "set (take b (drop (k * b) xs)) \<subseteq> set (drop (k * b) xs)"
    by (rule set_take_subset)
  ultimately show ?thesis by blast
qed

lemma batch_sizes:
  fixes b :: nat and xs :: "'a list"
  assumes "0 < b" and "0 < length xs"
  defines "m \<equiv> nat (num_batches (int (length xs)) (int b))"
  shows "k + 1 < m \<Longrightarrow> length (take b (drop (k * b) xs)) = b"
    and "length (take b (drop ((m - 1) * b) xs)) =
           (if length xs mod b = 0 then b else length xs mod b)"
proof -
  note bb = batch_count_bounds [OF assms(1), of "length xs", folded m_def]
  have pos: "0 < m" and lo: "(m - 1) * b < length xs" using bb(2) assms(2) by simp_all
  have up: "length xs \<le> m * b" using bb(1) .
  show "length (take b (drop (k * b) xs)) = b" if "k + 1 < m"
  proof -
    have "(k + 1) * b \<le> (m - 1) * b" using that by (intro mult_le_mono1) simp
    with lo have "k * b + b < length xs" by (simp add: algebra_simps)
    then show ?thesis by simp
  qed
  define r where "r = length xs - (m - 1) * b"
  have lr: "length xs = r + (m - 1) * b" and r0: "0 < r" using lo by (simp_all add: r_def)
  have "m * b = (m - 1) * b + b" using pos by (metis Suc_diff_1 mult_Suc add.commute)
  with up have rb: "r \<le> b" by (simp add: r_def)
  have "length xs mod b = r mod b" unfolding lr by simp
  then have "(if length xs mod b = 0 then b else length xs mod b) = r"
    using r0 rb by (cases "r = b") simp_all
  moreover have "length (take b (drop ((m - 1) * b) xs)) = r" using rb by (simp add: r_def min_def)
  ultimately show "length (take b (drop ((m - 1) * b) xs)) =
           (if length xs mod b = 0 then b else length xs mod b)" by simp
qed

section \<open>Discovery and the claims on partitioning\<close>

lemma pair_loop_Inr:
  "pair_loop n ext ts acc = Inr ps \<Longrightarrow>
   ps = acc @ concat (map (\<lambda>t. case with_suffix t ext of
                                  Inl e \<Rightarrow> []
                                | Inr i \<Rightarrow> if path_exists n [i] then [(t, i)] else []) ts)"
proof (induction ts arbitrary: acc)
  case Nil
  then show ?case by simp
next
  case (Cons t ts)
  from Cons.prems obtain i where i: "with_suffix t ext = Inr i"
    by (cases "with_suffix t ext") auto
  let ?acc = "if path_exists n [i] then acc @ [(t, i)] else acc"
  from Cons.prems i have "pair_loop n ext ts ?acc = Inr ps" by simp
  from Cons.IH [OF this] show ?case using i by simp
qed


lemma pair_loop_fst:
  assumes "pair_loop n ext ts [] = Inr ps"
  shows "map fst ps = filter (\<lambda>t. \<exists>i. with_suffix t ext = Inr i \<and> path_exists n [i]) ts"
proof -
  have "map fst (concat (map (\<lambda>t. case with_suffix t ext of
                                  Inl e \<Rightarrow> []
                                | Inr i \<Rightarrow> if path_exists n [i] then [(t, i)] else []) ts))
       = filter (\<lambda>t. \<exists>i. with_suffix t ext = Inr i \<and> path_exists n [i]) ts"
    by (induction ts) (auto split: sum.splits)
  with pair_loop_Inr [OF assms] show ?thesis by simp
qed

lemma distinct_sorted_glob:
  "distinct (sort (glob fnm n pat))" "sorted (sort (glob fnm n pat))"
  by (cases n; simp add: glob_def)+

lemma discover_sorted:
  assumes "discover fnm n text_ext image_ext = Inr file_pairs"
  shows "sorted (map fst file_pairs)" and "distinct (map fst file_pairs)"
proof -
  let ?ts = "sort (glob fnm n (''*'' @ text_ext))"
  from assms have "pair_loop n image_ext ?ts [] = Inr file_pairs"
    by (simp add: discover_def)
  from pair_loop_fst [OF this] distinct_sorted_glob [of fnm n "''*'' @ text_ext"]
  show "sorted (map fst file_pairs)" and "distinct (map fst file_pairs)"
    by (simp_all add: sorted_wrt_filter)
qed

text \<open>
  C1. With a positive batch size, the batches the loop visits are contiguous slices of
  the discovered pair list, which is sorted by text-file name and holds no pair twice:
  batch \<open>k\<close> is the slice of \<open>batch_size\<close> pairs from position \<open>k * batch_size\<close>,
  the batches concatenated in order give the whole list back (so their union is the full
  pair set and the order is kept within and across batches), and two different batches
  share no pair.
\<close>

theorem batches_partition_discovered:
  assumes "discover fnm n text_ext image_ext = Inr file_pairs" and "0 < batch_size"
  shows "sorted (map fst file_pairs) \<and> distinct file_pairs
       \<and> concat (batches file_pairs batch_size) = file_pairs
       \<and> (\<forall>k < length (batches file_pairs batch_size).
            batches file_pairs batch_size ! k =
              take (nat batch_size) (drop (k * nat batch_size) file_pairs))
       \<and> (\<forall>j k. j < k \<and> k < length (batches file_pairs batch_size) \<longrightarrow>
            set (batches file_pairs batch_size ! j) \<inter> set (batches file_pairs batch_size ! k) = {})"
proof -
  have d: "distinct file_pairs"
    using discover_sorted(2) [OF assms(1)] by (simp add: distinct_map)
  have nth: "batches file_pairs batch_size ! k =
      take (nat batch_size) (drop (k * nat batch_size) file_pairs)"
    if "k < length (batches file_pairs batch_size)" for k
    using that by (simp add: batches_def batch_range_def batch_pairs_pos [OF assms(2)])
  have "set (batches file_pairs batch_size ! j) \<inter> set (batches file_pairs batch_size ! k) = {}"
    if "j < k" "k < length (batches file_pairs batch_size)" for j k
  proof -
    from that have "j < length (batches file_pairs batch_size)" by simp
    then show ?thesis using that by (simp only: nth batches_disjoint [OF d])
  qed
  with d nth discover_sorted(1) [OF assms(1)] concat_batches [OF assms(2)]
  show ?thesis by blast
qed

lemma discover_example:
  "discover star_match example_dir ''.txt'' ''.jpg'' = Inr example_pairs"
  by code_simp

lemma batches_example:
  "batches example_pairs 2 =
     [[(''a.txt'', ''a.jpg''), (''b.txt'', ''b.jpg'')], [(''d.txt'', ''d.jpg'')]]"
  by code_simp

theorem batches_partition_discovered_witness:
  "discover star_match example_dir ''.txt'' ''.jpg'' = Inr example_pairs \<and> (0::int) < 2
   \<and> concat (batches example_pairs 2) = example_pairs
   \<and> batches example_pairs 2 ! 1 = take 2 (drop 2 example_pairs)
   \<and> set (batches example_pairs 2 ! 0) \<inter> set (batches example_pairs 2 ! 1) = {}"
proof -
  have len: "length (batches example_pairs 2) = 2" by (simp add: batches_example)
  have "(0::int) < 2" by simp
  note all = batches_partition_discovered [OF discover_example this]
  from all
  have c: "concat (batches example_pairs 2) = example_pairs"
    and n: "\<forall>k < length (batches example_pairs 2).
            batches example_pairs 2 ! k = take (nat 2) (drop (k * nat 2) example_pairs)"
    and d: "\<forall>j k. j < k \<and> k < length (batches example_pairs 2) \<longrightarrow>
            set (batches example_pairs 2 ! j) \<inter> set (batches example_pairs 2 ! k) = {}"
    by blast+
  from n len have "batches example_pairs 2 ! 1 = take 2 (drop 2 example_pairs)" by simp
  moreover from d len
  have "set (batches example_pairs 2 ! 0) \<inter> set (batches example_pairs 2 ! 1) = {}"
    by simp
  ultimately show ?thesis using c discover_example by simp
qed

lemma num_batches_example: "num_batches (int (length example_pairs)) 2 = 2"
  by (simp add: example_pairs_def num_batches_def)

lemma organize_processes:
  assumes "discover fnm n text_ext image_ext = Inr file_pairs"
    and "file_pairs \<noteq> []" and "batch_size \<noteq> 0"
  shows "organize_files_into_batches fnm disk_view (Some n) batch_size folder_prefix text_ext
             image_ext combined_name move_files =
           (case process_batches disk_view move_files folder_prefix combined_name file_pairs
                   batch_size (batch_range file_pairs batch_size) n of
              (Some e, n') \<Rightarrow> (Raised e, Some n')
            | (None, n') \<Rightarrow> (Completed, Some n'))"
  unfolding organize_files_into_batches_def
  by (simp only: assms option.case sum.case if_False)

lemma int_mod_choice: 
  fixes b l :: nat
  shows "int (if l mod b = 0 then b else l mod b) =
          (if int l mod int b = 0 then int b else int l mod int b)"
proof -
  define r where "r = l mod b"
  have "int l mod int b = int r" unfolding r_def by (rule zmod_int [symmetric])
  then show ?thesis unfolding r_def [symmetric] by simp
qed

text \<open>
  C3. With \<open>P \<ge> 1\<close> pairs and a positive batch size, every batch before the last holds
  exactly \<open>batch_size\<close> pairs, and the last holds \<open>P mod batch_size\<close> pairs, or
  \<open>batch_size\<close> when \<open>P\<close> is a multiple of it.
\<close>

theorem batch_sizes_full_but_last:
  assumes "file_pairs \<noteq> []" and "0 < batch_size"
  shows "(\<forall>k. int k < num_batches (int (length file_pairs)) batch_size - 1 \<longrightarrow>
            int (length (batch_pairs file_pairs batch_size k)) = batch_size)
       \<and> int (length (batch_pairs file_pairs batch_size
                 (nat (num_batches (int (length file_pairs)) batch_size - 1)))) =
           (if int (length file_pairs) mod batch_size = 0 then batch_size
            else int (length file_pairs) mod batch_size)"
proof -
  obtain b where b: "batch_size = int b" "0 < b"
    using assms(2) by (metis pos_int_cases of_nat_0_less_iff)
  let ?z = "num_batches (int (length file_pairs)) (int b)"
  let ?m = "nat ?z"
  have len: "0 < length file_pairs" using assms(1) by simp
  have bp: "batch_pairs file_pairs (int b) k = take b (drop (k * b) file_pairs)" for k
    using batch_pairs_pos [of "int b" file_pairs k] b(2) by simp
  have m: "0 < ?m" using batch_count_bounds(2) [OF b(2) len] by simp
  then have z: "?z = int ?m" by simp
  have full: "int (length (batch_pairs file_pairs (int b) k)) = int b" if "int k < ?z - 1" for k
  proof -
    from that have "k + 1 < ?m" by linarith
    from batch_sizes(1) [OF b(2) len this] show ?thesis by (simp only: bp)
  qed
  have "nat (?z - 1) = ?m - 1" by simp
  then have "int (length (batch_pairs file_pairs (int b) (nat (?z - 1)))) =
           int (if length file_pairs mod b = 0 then b else length file_pairs mod b)"
    using batch_sizes(2) [OF b(2) len] by (simp only: bp)
  also have "\<dots> = (if int (length file_pairs) mod int b = 0 then int b
            else int (length file_pairs) mod int b)"
    by (rule int_mod_choice)
  finally show ?thesis using full unfolding b(1) by blast
qed

theorem batch_sizes_full_but_last_witness:
  "example_pairs \<noteq> [] \<and> (0::int) < 2
   \<and> int (length (batch_pairs example_pairs 2 0)) = 2
   \<and> int (length (batch_pairs example_pairs 2 1)) = 1"
proof -
  have ne: "example_pairs \<noteq> []" by (simp add: example_pairs_def)
  have pos: "(0::int) < 2" by simp
  have m: "int (length example_pairs) mod 2 = 1" by (simp add: example_pairs_def)
  from batch_sizes_full_but_last [OF ne pos]
  have "\<forall>k. int k < num_batches (int (length example_pairs)) 2 - 1 \<longrightarrow>
            int (length (batch_pairs example_pairs 2 k)) = 2"
    and "int (length (batch_pairs example_pairs 2
                 (nat (num_batches (int (length example_pairs)) 2 - 1)))) =
           (if int (length example_pairs) mod 2 = 0 then 2
            else int (length example_pairs) mod 2)"
    by blast+
  then show ?thesis using ne by (simp add: num_batches_example m)
qed

section \<open>Runs that end early\<close>

text \<open>
  C6. When the source directory does not exist, the run reports it and returns with the
  file system as it was: nothing is created, transferred or written.
\<close>

theorem missing_source_no_mutation:
  "organize_files_into_batches fnm disk_view None batch_size folder_prefix text_ext image_ext
     combined_name move_files = (NoDirectory, None)"
  by (simp add: organize_files_into_batches_def)

text \<open>
  C7. When discovery yields no complete pair, the run ends with the no-pairs report and
  the file system as it was.
\<close>

theorem no_pairs_no_mutation:
  assumes "discover fnm n text_ext image_ext = Inr []"
  shows "organize_files_into_batches fnm disk_view (Some n) batch_size folder_prefix text_ext
           image_ext combined_name move_files = (NoPairs, Some n)"
  unfolding organize_files_into_batches_def
  by (simp only: assms option.case sum.case if_True simp_thms)

lemma discover_unmatched: "discover star_match unmatched_dir ''.txt'' ''.jpg'' = Inr []"
  by code_simp

theorem no_pairs_no_mutation_witness:
  "discover star_match unmatched_dir ''.txt'' ''.jpg'' = Inr []
   \<and> organize_files_into_batches star_match all_buffered (Some unmatched_dir) 2 ''Batch''
         ''.txt'' ''.jpg'' ''combined.txt'' True = (NoPairs, Some unmatched_dir)"
  using no_pairs_no_mutation [OF discover_unmatched] discover_unmatched by simp

lemma with_suffix_invalid:
  assumes "sfx \<noteq> []" and "\<not> prefix ''.'' sfx"
  shows "with_suffix name sfx = Inl ValueError"
  using assms by (simp add: with_suffix_def)

lemma with_suffix_valid:
  assumes "prefix ''.'' sfx" and "sfx \<noteq> ''.''" and "CHR ''/'' \<notin> set sfx" and "name \<noteq> []"
  shows "\<exists>image. with_suffix name sfx = Inr image"
  using assms by (auto simp add: with_suffix_def Let_def)

lemma pair_loop_invalid:
  assumes "sfx \<noteq> []" and "\<not> prefix ''.'' sfx" and "ts \<noteq> []"
  shows "pair_loop n sfx ts acc = Inl ValueError"
  using assms by (cases ts) (simp_all add: with_suffix_invalid)

lemma discover_raises:
  assumes "pair_loop n image_ext (sort (glob fnm n (''*'' @ text_ext))) [] = Inl e"
  shows "organize_files_into_batches fnm disk_view (Some n) batch_size folder_prefix text_ext
           image_ext combined_name move_files = (Raised e, Some n)"
  unfolding organize_files_into_batches_def discover_def Let_def
  by (simp only: assms option.case sum.case)

lemma pair_loop_valid:
  assumes "prefix ''.'' sfx" and "sfx \<noteq> ''.''" and "CHR ''/'' \<notin> set sfx"
    and "[] \<notin> set ts"
  shows "\<exists>ps. pair_loop n sfx ts acc = Inr ps"
  using assms(4)
proof (induction ts arbitrary: acc)
  case Nil
  then show ?case by simp
next
  case (Cons t ts)
  then have "t \<noteq> []" by auto
  from with_suffix_valid [OF assms(1-3) this] obtain image
    where "with_suffix t sfx = Inr image" ..
  with Cons show ?case by simp
qed

text \<open>
  C10, as amended. When \<open>image_ext\<close> is a non-empty string that does not begin with a
  dot and at least one entry matches the text pattern, pairing raises \<open>ValueError\<close>
  with the file system untouched. When \<open>image_ext\<close> begins with a dot, is not the single
  dot and holds no path separator, the suffix replacement succeeds on every text file
  with a non-empty name, and the pairing loop over text files with non-empty names
  raises no \<open>ValueError\<close>.
\<close>

theorem invalid_image_ext_raises:
  "(image_ext \<noteq> [] \<and> \<not> prefix ''.'' image_ext \<and> glob fnm n (''*'' @ text_ext) \<noteq> [] \<longrightarrow>
      organize_files_into_batches fnm disk_view (Some n) batch_size folder_prefix text_ext
        image_ext combined_name move_files = (Raised ValueError, Some n))
   \<and> (prefix ''.'' image_ext \<and> image_ext \<noteq> ''.'' \<and> CHR ''/'' \<notin> set image_ext
        \<and> [] \<notin> set text_files \<longrightarrow>
      (\<forall>text_file \<in> set text_files. \<exists>image_file. with_suffix text_file image_ext = Inr image_file)
      \<and> pair_loop n image_ext text_files [] \<noteq> Inl ValueError)"
proof (intro conjI impI)
  assume a: "image_ext \<noteq> [] \<and> \<not> prefix ''.'' image_ext \<and> glob fnm n (''*'' @ text_ext) \<noteq> []"
  then have "sort (glob fnm n (''*'' @ text_ext)) \<noteq> []"
    by (metis set_sort set_empty)
  with a have "pair_loop n image_ext (sort (glob fnm n (''*'' @ text_ext))) [] = Inl ValueError"
    by (simp add: pair_loop_invalid)
  then show "organize_files_into_batches fnm disk_view (Some n) batch_size folder_prefix text_ext
        image_ext combined_name move_files = (Raised ValueError, Some n)"
    by (rule discover_raises)
next
  assume b: "prefix ''.'' image_ext \<and> image_ext \<noteq> ''.'' \<and> CHR ''/'' \<notin> set image_ext
        \<and> [] \<notin> set text_files"
  show "\<forall>text_file \<in> set text_files. \<exists>image_file. with_suffix text_file image_ext = Inr image_file"
  proof
    fix text_file assume "text_file \<in> set text_files"
    with b have "text_file \<noteq> []" by auto
    with b show "\<exists>image_file. with_suffix text_file image_ext = Inr image_file"
      by (simp add: with_suffix_valid)
  qed
  from b have "\<exists>ps. pair_loop n image_ext text_files [] = Inr ps"
    by (intro pair_loop_valid) simp_all
  then show "pair_loop n image_ext text_files [] \<noteq> Inl ValueError" by auto
qed

theorem invalid_image_ext_raises_witness:
  "''jpg'' \<noteq> [] \<and> \<not> prefix ''.'' ''jpg''
   \<and> glob star_match example_dir (''*'' @ ''.txt'') \<noteq> []
   \<and> organize_files_into_batches star_match all_buffered (Some example_dir) 2 ''Batch''
        ''.txt'' ''jpg'' ''combined.txt'' False = (Raised ValueError, Some example_dir)
   \<and> prefix ''.'' ''.jpg'' \<and> ''.jpg'' \<noteq> ''.'' \<and> CHR ''/'' \<notin> set ''.jpg''
   \<and> sort (glob star_match example_dir (''*'' @ ''.txt'')) = [''a.txt'', ''b.txt'', ''c.txt'', ''d.txt'']
   \<and> [] \<notin> set [''a.txt'', ''b.txt'', ''c.txt'', ''d.txt'']
   \<and> with_suffix ''a.txt'' ''.jpg'' = Inr ''a.jpg''
   \<and> pair_loop example_dir ''.jpg'' [''a.txt'', ''b.txt'', ''c.txt'', ''d.txt''] [] = Inr example_pairs
   \<and> pair_loop example_dir ''.jpg'' [''a.txt'', ''b.txt'', ''c.txt'', ''d.txt''] [] \<noteq> Inl ValueError"
proof -
  let ?ts = "[''a.txt'', ''b.txt'', ''c.txt'', ''d.txt'']"
  have g: "glob star_match example_dir (''*'' @ ''.txt'') \<noteq> []" by code_simp
  have s: "sort (glob star_match example_dir (''*'' @ ''.txt'')) = ?ts" by code_simp
  have i: "[] \<notin> set ?ts" by simp
  have w: "with_suffix ''a.txt'' ''.jpg'' = Inr ''a.jpg''" by code_simp
  have p: "pair_loop example_dir ''.jpg'' ?ts [] = Inr example_pairs" by code_simp
  have 1: "organize_files_into_batches star_match all_buffered (Some example_dir) 2 ''Batch''
        ''.txt'' ''jpg'' ''combined.txt'' False = (Raised ValueError, Some example_dir)"
    using invalid_image_ext_raises [of "''jpg''" star_match example_dir "''.txt''"] g by simp
  have 2: "(\<forall>text_file \<in> set ?ts. \<exists>image_file. with_suffix text_file ''.jpg'' = Inr image_file)
      \<and> pair_loop example_dir ''.jpg'' ?ts [] \<noteq> Inl ValueError"
    using invalid_image_ext_raises [of "''.jpg''" star_match example_dir "''.txt''" _ _ _ _ _ ?ts] i
    by simp
  from 1 2 g s i w p show ?thesis by simp
qed

text \<open>
  The claim as stated fails for \<open>image_ext = ".j/pg"\<close>, which begins with a dot.
\<close>

theorem dotted_image_ext_raises_counterexample:
  "prefix ''.'' ''.j/pg''
   \<and> glob star_match example_dir (''*'' @ ''.txt'') \<noteq> []
   \<and> organize_files_into_batches star_match all_buffered (Some example_dir) 2 ''Batch''
        ''.txt'' ''.j/pg'' ''combined.txt'' False = (Raised ValueError, Some example_dir)"
proof -
  have g: "glob star_match example_dir (''*'' @ ''.txt'') \<noteq> []" by code_simp
  have "organize_files_into_batches star_match all_buffered (Some example_dir) 2 ''Batch''
        ''.txt'' ''.j/pg'' ''combined.txt'' False = (Raised ValueError, Some example_dir)"
    by code_simp
  with g show ?thesis by simp
qed

lemma num_batches_negative:
  assumes "batch_size < 0" and "2 \<le> len"
  shows "num_batches len batch_size \<le> 0"
proof (cases "0 \<le> len + batch_size - 1")
  case True
  then show ?thesis unfolding num_batches_def using assms(1) by (rule div_nonneg_neg_le0)
next
  case False
  then have "len + batch_size - 1 \<le> 0" "batch_size < len + batch_size - 1"
    using assms(2) by simp_all
  then have "(len + batch_size - 1) div batch_size = 0" by (rule div_neg_neg_trivial)
  then show ?thesis by (simp add: num_batches_def)
qed

lemma batches_negative:
  assumes "batch_size < 0" and "file_pairs \<noteq> []"
  shows "batches file_pairs batch_size = (if length file_pairs = 1 then [[]] else [])"
proof (cases "length file_pairs = 1")
  case True
  have "batch_size div batch_size = 1" using assms(1) by simp
  then have "batch_range file_pairs batch_size = [0]"
    by (simp add: batch_range_def num_batches_def True)
  moreover have "batch_pairs file_pairs batch_size 0 = []"
    using assms(1) by (simp add: batch_pairs_def py_slice_def slice_index_def True)
  ultimately show ?thesis using True by (simp add: batches_def)
next
  case False
  moreover have "length file_pairs \<noteq> 0" using assms(2) by simp
  ultimately have "2 \<le> int (length file_pairs)" by linarith
  from num_batches_negative [OF assms(1) this] False show ?thesis
    by (simp add: batches_def batch_range_def)
qed

text \<open>
  C5, as amended. With at least one complete pair, a batch size of 0 makes the run fail
  with \<open>ZeroDivisionError\<close> before any batch is produced, the file system untouched.
  A negative batch size is not rejected and the run does not loop: with two or more pairs
  no batch is visited and the run completes with the file system untouched; with exactly
  one pair a single batch is visited, and it holds no pair.
\<close>

theorem nonpositive_batch_size:
  assumes "discover fnm n text_ext image_ext = Inr file_pairs" and "file_pairs \<noteq> []"
  shows "(batch_size = 0 \<longrightarrow>
            organize_files_into_batches fnm disk_view (Some n) batch_size folder_prefix text_ext
              image_ext combined_name move_files = (Raised ZeroDivisionError, Some n))
       \<and> (batch_size < 0 \<longrightarrow>
            batches file_pairs batch_size = (if length file_pairs = 1 then [[]] else []))
       \<and> (batch_size < 0 \<and> 2 \<le> length file_pairs \<longrightarrow>
            organize_files_into_batches fnm disk_view (Some n) batch_size folder_prefix text_ext
              image_ext combined_name move_files = (Completed, Some n))"
proof (intro conjI impI)
  assume "batch_size = 0"
  then show "organize_files_into_batches fnm disk_view (Some n) batch_size folder_prefix text_ext
              image_ext combined_name move_files = (Raised ZeroDivisionError, Some n)"
    unfolding organize_files_into_batches_def
    by (simp only: assms option.case sum.case if_True if_False simp_thms)
next
  assume "batch_size < 0"
  then show "batches file_pairs batch_size = (if length file_pairs = 1 then [[]] else [])"
    using assms(2) by (rule batches_negative)
next
  assume a: "batch_size < 0 \<and> 2 \<le> length file_pairs"
  then have "2 \<le> int (length file_pairs)" by simp
  with a have "num_batches (int (length file_pairs)) batch_size \<le> 0"
    by (simp add: num_batches_negative)
  then have "batch_range file_pairs batch_size = []" by (simp add: batch_range_def)
  moreover have nz: "batch_size \<noteq> 0" using a by simp
  ultimately show "organize_files_into_batches fnm disk_view (Some n) batch_size folder_prefix
      text_ext image_ext combined_name move_files = (Completed, Some n)"
    using organize_processes [OF assms nz] by simp
qed

theorem nonpositive_batch_size_witness:
  "discover star_match example_dir ''.txt'' ''.jpg'' = Inr example_pairs \<and> example_pairs \<noteq> []
   \<and> organize_files_into_batches star_match all_buffered (Some example_dir) 0 ''Batch''
        ''.txt'' ''.jpg'' ''combined.txt'' False = (Raised ZeroDivisionError, Some example_dir)
   \<and> (- 1 :: int) < 0 \<and> 2 \<le> length example_pairs
   \<and> batches example_pairs (- 1) = []
   \<and> organize_files_into_batches star_match all_buffered (Some example_dir) (- 1) ''Batch''
        ''.txt'' ''.jpg'' ''combined.txt'' False = (Completed, Some example_dir)"
proof -
  have ne: "example_pairs \<noteq> []" and len: "2 \<le> length example_pairs" "length example_pairs \<noteq> 1"
    by (simp_all add: example_pairs_def)
  note z = nonpositive_batch_size [OF discover_example ne, of 0 all_buffered "''Batch''"
      "''combined.txt''" False]
  note m = nonpositive_batch_size [OF discover_example ne, of "- 1" all_buffered "''Batch''"
      "''combined.txt''" False]
  from z have "organize_files_into_batches star_match all_buffered (Some example_dir) 0 ''Batch''
        ''.txt'' ''.jpg'' ''combined.txt'' False = (Raised ZeroDivisionError, Some example_dir)"
    by simp
  moreover from m len have "batches example_pairs (- 1) = []" by simp
  moreover from m len have "organize_files_into_batches star_match all_buffered
       (Some example_dir) (- 1) ''Batch'' ''.txt'' ''.jpg'' ''combined.txt'' False
        = (Completed, Some example_dir)"
    by simp
  ultimately show ?thesis using discover_example ne len by simp
qed

text \<open>
  The claim as stated fails for a batch size of \<open>-1\<close> on a directory with one pair: the
  run completes, having created a batch folder with an empty combined file.
\<close>

theorem negative_batch_size_counterexample:
  "(- 1 :: int) \<le> 0
   \<and> organize_files_into_batches star_match all_buffered (Some single_pair_dir) (- 1) ''Batch''
        ''.txt'' ''.jpg'' ''combined.txt'' False =
       (Completed,
        Some (Dir [(''a.txt'', File (Text ''A'')), (''a.jpg'', File (Bytes ''1'')),
                   (''Batch_01'', Dir [(''combined.txt'', File (Text []))])]))
   \<and> Dir [(''a.txt'', File (Text ''A'')), (''a.jpg'', File (Bytes ''1'')),
           (''Batch_01'', Dir [(''combined.txt'', File (Text []))])] \<noteq> single_pair_dir"
proof -
  have "organize_files_into_batches star_match all_buffered (Some single_pair_dir) (- 1) ''Batch''
        ''.txt'' ''.jpg'' ''combined.txt'' False =
       (Completed,
        Some (Dir [(''a.txt'', File (Text ''A'')), (''a.jpg'', File (Bytes ''1'')),
                   (''Batch_01'', Dir [(''combined.txt'', File (Text []))])]))"
    by code_simp
  then show ?thesis by (simp add: single_pair_dir_def)
qed

section \<open>Reading and writing below the source directory\<close>

lemma put_single:
  assumes "put n [x] v = Inr n'"
  shows "\<forall>y. entry n' y = (if y = x then Some v else entry n y)"
  using assms by (cases n) (auto simp: update_conv')

lemma put_nested:
  assumes "put n (x # y # p) v = Inr n'"
  shows "\<exists>m m'. entry n x = Some m \<and> put m (y # p) v = Inr m'
           \<and> (\<forall>z. entry n' z = (if z = x then Some m' else entry n z))"
  using assms by (cases n) (auto simp: update_conv' split: option.splits sum.splits)

lemma remove_single: "entry (remove n [x]) y = (if y = x then None else entry n y)"
  by (cases n) (auto simp: delete_conv')

lemma put_lookup: "put n p v = Inr n' \<Longrightarrow> lookup n' p = Some v"
proof (induction n p v arbitrary: n' rule: put.induct)
  case (4 es x y p v)
  from put_nested [OF "4.prems"] obtain m m'
    where m: "map_of es x = Some m" "put m (y # p) v = Inr m'" "entry n' x = Some m'"
    by auto
  from "4.IH" [OF m(1,2)] have "lookup m' (y # p) = Some v" .
  with m(3) show ?case by (simp del: lookup.simps add: lookup.simps(2) [of n' x])
qed (auto simp: update_conv')

lemma put_entry_mono:
  assumes "put n (x # p) v = Inr n'" and "entry n y \<noteq> None"
  shows "entry n' y \<noteq> None"
proof (cases p)
  case Nil
  with assms(1) have "put n [x] v = Inr n'" by simp
  from put_single [OF this] assms(2) show ?thesis by auto
next
  case (Cons z q)
  with assms(1) have "put n (x # z # q) v = Inr n'" by simp
  from put_nested [OF this] assms(2) show ?thesis by auto
qed

lemma put_again:
  "put n p v = Inr n' \<Longrightarrow> \<exists>n''. put n' p w = Inr n''"
proof (induction n p v arbitrary: n' rule: put.induct)
  case (4 es x y p v)
  from "4.prems" obtain m m'
    where m: "map_of es x = Some m" "put m (y # p) v = Inr m'" "n' = Dir (AList.update x m' es)"
    by (auto split: option.splits sum.splits)
  from "4.IH" [OF m(1,2)] obtain m'' where "put m' (y # p) w = Inr m''" ..
  with m(3) show ?case by (simp add: update_conv')
qed auto

lemma lookup_Cons: "lookup n (b # p) = (case entry n b of None \<Rightarrow> None | Some m \<Rightarrow> lookup m p)"
  by simp

lemma is_dir_Cons: "is_dir n (b # p) = (case entry n b of None \<Rightarrow> False | Some m \<Rightarrow> is_dir m p)"
  by (simp add: is_dir_def split: option.splits)

lemma path_exists_Cons:
  "path_exists n (b # p) = (case entry n b of None \<Rightarrow> False | Some m \<Rightarrow> path_exists m p)"
  by (simp add: path_exists_def split: option.splits)

lemma read_text_Cons:
  "read_text n (b # p) =
     (case entry n b of None \<Rightarrow> Inl FileNotFoundError | Some m \<Rightarrow> read_text m p)"
  by (simp add: read_text_def split: option.splits)

subsection \<open>The effect of each call on the entries of the source directory\<close>

lemma mkdir_root:
  assumes "mkdir_exist_ok n [b] = Inr n'"
  shows "(n' = n \<and> (\<exists>es. entry n b = Some (Dir es)))
       \<or> (entry n b = None \<and> (\<forall>z. entry n' z = (if z = b then Some (Dir []) else entry n z)))"
proof (cases "entry n b")
  case None
  with assms have "put n [b] (Dir []) = Inr n'" by (simp add: mkdir_exist_ok_def)
  from put_single [OF this] None show ?thesis by simp
next
  case (Some m)
  with assms show ?thesis by (cases m) (simp_all add: mkdir_exist_ok_def)
qed

lemma landing_Cons: "\<exists>z q. landing m y x = z # q"
  by (simp add: landing_def)

lemma put_folder:
  assumes "put n (b # landing m0 y x) v = Inr n'"
  shows "\<exists>m m'. entry n b = Some m \<and> put m (landing m0 y x) v = Inr m'
           \<and> (\<forall>z. entry n' z = (if z = b then Some m' else entry n z))"
proof -
  obtain z q where l: "landing m0 y x = z # q" using landing_Cons by blast
  from assms have "put n (b # z # q) v = Inr n'" by (simp only: l)
  from put_nested [OF this] show ?thesis by (simp only: l)
qed

lemma real_dst_landing:
  assumes "entry n b = Some m"
  shows "(if is_dir n [b, y] then [b, y] @ [last [x]] else [b, y]) = b # landing m y x"
  using assms by (simp add: landing_def is_dir_Cons)

lemma copy2_root:
  assumes "copy2 n [x] [b, y] = Inr n'"
  shows "\<exists>c m m'. entry n x = Some (File c) \<and> entry n b = Some m
           \<and> put m (landing m y x) (File c) = Inr m'
           \<and> (\<forall>z. entry n' z = (if z = b then Some m' else entry n z))"
proof -
  let ?dst = "if is_dir n [b, y] then [b, y] @ [last [x]] else [b, y]"
  from assms obtain c where c: "entry n x = Some (File c)"
    by (auto simp: copy2_def Let_def split: option.splits node.splits)
  from assms c have p: "put n ?dst (File c) = Inr n'"
    by (auto simp: copy2_def Let_def split: option.splits node.splits if_splits)
  then obtain m where mb: "entry n b = Some m"
    by (cases "entry n b"; cases n) (auto split: if_splits)
  from p have "put n (b # landing m y x) (File c) = Inr n'"
    by (simp only: real_dst_landing [OF mb])
  from put_folder [OF this] mb c show ?thesis by auto
qed

lemma move_root:
  assumes "move n [x] [b, y] = Inr n'"
  shows "\<exists>v m m'. entry n x = Some v \<and> x \<noteq> b \<and> entry n b = Some m
           \<and> put m (landing m y x) v = Inr m'
           \<and> (\<forall>z. entry n' z = (if z = b then Some m' else if z = x then None else entry n z))"
proof -
  let ?dst = "if is_dir n [b, y] then [b, y] @ [last [x]] else [b, y]"
  from assms obtain v where v: "entry n x = Some v" and p: "put (remove n [x]) ?dst v = Inr n'"
    by (auto simp: move_def Let_def split: option.splits node.splits if_splits)
  from p obtain m where mr: "entry (remove n [x]) b = Some m"
    by (cases "entry (remove n [x]) b"; cases "remove n [x]") (auto split: if_splits)
  then have xb: "x \<noteq> b" and mb: "entry n b = Some m"
    by (auto simp: remove_single split: if_splits)
  from p have "put (remove n [x]) (b # landing m y x) v = Inr n'"
    by (simp only: real_dst_landing [OF mb])
  from put_folder [OF this] mr v xb mb show ?thesis by (auto simp: remove_single)
qed

section \<open>Copy mode and move mode in lockstep\<close>

lemma mirrors_refl: "mirrors n n"
  by (simp add: mirrors_def)

lemma mirrors_same:
  assumes "mirrors c m" and "entry m x = Some v"
  shows "entry c x = Some v"
  using assms unfolding mirrors_def by (metis option.distinct(1))

lemma mirrors_lookup:
  assumes "mirrors c m"
  shows "lookup c (folder # file # p) = lookup m (folder # file # p)"
proof -
  from assms have "entry m folder = entry c folder
      \<or> (entry m folder = None \<and> (\<exists>t. entry c folder = Some (File t)))"
    by (simp add: mirrors_def)
  then show ?thesis by auto
qed

lemma mirrors_mkdir:
  assumes "mirrors c m"
    and "mkdir_exist_ok c [b] = Inr c'" and "mkdir_exist_ok m [b] = Inr m'"
  shows "mirrors c' m'"
proof -
  from assms(1)
  have b: "entry m b = entry c b \<or> (entry m b = None \<and> (\<exists>t. entry c b = Some (File t)))"
    by (simp add: mirrors_def)
  from mkdir_root [OF assms(2)] show ?thesis
  proof
    assume c: "c' = c \<and> (\<exists>es. entry c b = Some (Dir es))"
    with b have "entry m b = entry c b" by auto
    with c mkdir_root [OF assms(3)] have "m' = m" by auto
    with c assms(1) show ?thesis by simp
  next
    assume c: "entry c b = None
       \<and> (\<forall>z. entry c' z = (if z = b then Some (Dir []) else entry c z))"
    with b have "entry m b = None" by auto
    with mkdir_root [OF assms(3)]
    have m: "\<forall>z. entry m' z = (if z = b then Some (Dir []) else entry m z)" by auto
    show ?thesis unfolding mirrors_def
    proof
      fix x
      from assms(1) have "entry m x = entry c x \<or> (entry m x = None \<and> (\<exists>t. entry c x = Some (File t)))"
        by (simp add: mirrors_def)
      with c m show "entry m' x = entry c' x \<or> (entry m' x = None \<and> (\<exists>t. entry c' x = Some (File t)))"
        by simp
    qed
  qed
qed

lemma mirrors_transfer:
  assumes "mirrors c m"
    and "copy2 c [x] [b, y] = Inr c'" and "move m [x] [b, y] = Inr m'"
  shows "mirrors c' m'"
proof -
  from copy2_root [OF assms(2)] obtain t fc fc'
    where c: "entry c x = Some (File t)" "entry c b = Some fc"
      "put fc (landing fc y x) (File t) = Inr fc'"
      "\<forall>z. entry c' z = (if z = b then Some fc' else entry c z)"
    by blast
  from move_root [OF assms(3)] obtain v fm fm'
    where m: "entry m x = Some v" "x \<noteq> b" "entry m b = Some fm"
      "put fm (landing fm y x) v = Inr fm'"
      "\<forall>z. entry m' z = (if z = b then Some fm' else if z = x then None else entry m z)"
    by blast
  from mirrors_same [OF assms(1) m(1)] c(1) have v: "v = File t" by simp
  from mirrors_same [OF assms(1) m(3)] c(2) have f: "fm = fc" by simp
  from m(4) c(3) have f': "fm' = fc'" unfolding v f by simp
  show ?thesis unfolding mirrors_def
  proof
    fix z
    from assms(1) have "entry m z = entry c z \<or> (entry m z = None \<and> (\<exists>t. entry c z = Some (File t)))"
      by (simp add: mirrors_def)
    with c(1,4) m(2,5) f'
    show "entry m' z = entry c' z \<or> (entry m' z = None \<and> (\<exists>t. entry c' z = Some (File t)))"
      by simp
  qed
qed

lemma mirrors_transfer_pairs:
  assumes "mirrors c m"
    and "transfer_pairs False b ps c = (None, c')" and "transfer_pairs True b ps m = (None, m')"
  shows "mirrors c' m'"
  using assms
proof (induction ps arbitrary: c m)
  case Nil
  then show ?case by simp
next
  case (Cons p ps)
  obtain t i where p: "p = (t, i)" by (cases p)
  from Cons.prems(2) obtain c1 c2 where c:
    "copy2 c [t] [b, t] = Inr c1" "copy2 c1 [i] [b, i] = Inr c2"
    "transfer_pairs False b ps c2 = (None, c')"
    unfolding p by (auto simp: transfer_def split: sum.splits)
  from Cons.prems(3) obtain m1 m2 where m:
    "move m [t] [b, t] = Inr m1" "move m1 [i] [b, i] = Inr m2"
    "transfer_pairs True b ps m2 = (None, m')"
    unfolding p by (auto simp: transfer_def split: sum.splits)
  from mirrors_transfer [OF Cons.prems(1) c(1) m(1)] have "mirrors c1 m1" .
  from mirrors_transfer [OF this c(2) m(2)] have "mirrors c2 m2" .
  from Cons.IH [OF this c(3) m(3)] show ?case .
qed

lemma open_w_root:
  assumes "open_w n [b, cn] = Inr n0"
  shows "\<exists>f f0. entry n b = Some f \<and> put f [cn] (File (Text [])) = Inr f0
           \<and> (\<forall>z. entry n0 z = (if z = b then Some f0 else entry n z))"
proof -
  from assms have "put n [b, cn] (File (Text [])) = Inr n0"
    by (auto simp: open_w_def split: option.splits node.splits)
  from put_nested [OF this] show ?thesis .
qed

lemma close_w_root:
  assumes "open_w n [b, cn] = Inr n0"
  shows "\<exists>f0 f'. entry n0 b = Some f0 \<and> put f0 [cn] (File (Text (concat writes))) = Inr f'
           \<and> (\<forall>z. entry (close_w n0 [b, cn] writes) z = (if z = b then Some f' else entry n0 z))"
proof -
  from assms have "put n [b, cn] (File (Text [])) = Inr n0"
    by (auto simp: open_w_def split: option.splits node.splits)
  from put_again [OF this] obtain n'
    where n': "put n0 [b, cn] (File (Text (concat writes))) = Inr n'" ..
  then have "close_w n0 [b, cn] writes = n'" by (simp add: close_w_def)
  with put_nested [OF n'] show ?thesis by simp
qed

lemma concat_loop_cong:
  assumes "entry n1 b = entry n2 b"
  shows "concat_loop dv n1 b cf len i ps w = concat_loop dv n2 b cf len i ps w"
proof (induction ps arbitrary: i w)
  case Nil
  show ?case by simp
next
  case (Cons p ps)
  obtain t im where p: "p = (t, im)" by (cases p)
  have "read_while_open dv n1 cf w [b, t] = read_while_open dv n2 cf w [b, t]"
    by (simp add: read_while_open_def read_text_Cons assms)
  with Cons.IH show ?case unfolding p by (simp split: sum.splits)
qed

lemma mirrors_concatenate:
  assumes "mirrors c m"
    and "concatenate dv b cn batch c = (None, c')" and "concatenate dv b cn batch m = (None, m')"
  shows "mirrors c' m'"
proof -
  from assms(2) obtain c0 wc where c0: "open_w c [b, cn] = Inr c0"
    and wc: "concat_loop dv c0 b [b, cn] (length batch) 0 batch [] = (None, wc)"
    and c': "c' = close_w c0 [b, cn] wc"
    by (auto simp: concatenate_def Let_def split: sum.splits prod.splits)
  from assms(3) obtain m0 wm where m0: "open_w m [b, cn] = Inr m0"
    and wm: "concat_loop dv m0 b [b, cn] (length batch) 0 batch [] = (None, wm)"
    and m': "m' = close_w m0 [b, cn] wm"
    by (auto simp: concatenate_def Let_def split: sum.splits prod.splits)
  from open_w_root [OF c0] obtain fc fc0 where fc: "entry c b = Some fc"
      "put fc [cn] (File (Text [])) = Inr fc0"
      "\<forall>z. entry c0 z = (if z = b then Some fc0 else entry c z)" by blast
  from open_w_root [OF m0] obtain fm fm0 where fm: "entry m b = Some fm"
      "put fm [cn] (File (Text [])) = Inr fm0"
      "\<forall>z. entry m0 z = (if z = b then Some fm0 else entry m z)" by blast
  from mirrors_same [OF assms(1) fm(1)] fc(1) have "fm = fc" by simp
  with fm(2) fc(2) have "fm0 = fc0" by simp
  with fc(3) fm(3) have e0: "entry c0 b = entry m0 b" by simp
  from concat_loop_cong [OF this] wc wm have w: "wm = wc" by simp
  from close_w_root [OF c0, of wc] obtain gc gc' where gc: "entry c0 b = Some gc"
      "put gc [cn] (File (Text (concat wc))) = Inr gc'"
      "\<forall>z. entry c' z = (if z = b then Some gc' else entry c0 z)"
    unfolding c' by blast
  from close_w_root [OF m0, of wc] obtain gm gm' where gm: "entry m0 b = Some gm"
      "put gm [cn] (File (Text (concat wc))) = Inr gm'"
      "\<forall>z. entry m' z = (if z = b then Some gm' else entry m0 z)"
    unfolding m' w by blast
  from gc(1) gm(1) e0 have "gm = gc" by simp
  with gc(2) gm(2) have g': "gm' = gc'" by simp
  show ?thesis unfolding mirrors_def
  proof
    fix z
    from assms(1) have "entry m z = entry c z \<or> (entry m z = None \<and> (\<exists>t. entry c z = Some (File t)))"
      by (simp add: mirrors_def)
    with fc(3) fm(3) gc(3) gm(3) g'
    show "entry m' z = entry c' z \<or> (entry m' z = None \<and> (\<exists>t. entry c' z = Some (File t)))"
      by simp
  qed
qed

lemma mirrors_process_batch:
  assumes "mirrors c m"
    and "process_batch dv False pre cn fp bs k c = (None, c')"
    and "process_batch dv True pre cn fp bs k m = (None, m')"
  shows "mirrors c' m'"
proof -
  let ?b = "folder_name pre k" and ?batch = "batch_pairs fp bs k"
  from assms(2) obtain c1 c2 where c: "mkdir_exist_ok c [?b] = Inr c1"
     "transfer_pairs False ?b ?batch c1 = (None, c2)"
     "concatenate dv ?b cn ?batch c2 = (None, c')"
    by (auto simp: process_batch_def Let_def split: sum.splits prod.splits option.splits)
  from assms(3) obtain m1 m2 where m: "mkdir_exist_ok m [?b] = Inr m1"
     "transfer_pairs True ?b ?batch m1 = (None, m2)"
     "concatenate dv ?b cn ?batch m2 = (None, m')"
    by (auto simp: process_batch_def Let_def split: sum.splits prod.splits option.splits)
  from mirrors_mkdir [OF assms(1) c(1) m(1)] have "mirrors c1 m1" .
  from mirrors_transfer_pairs [OF this c(2) m(2)] have "mirrors c2 m2" .
  from mirrors_concatenate [OF this c(3) m(3)] show ?thesis .
qed

lemma mirrors_process_batches:
  assumes "mirrors c m"
    and "process_batches dv False pre cn fp bs ks c = (None, c')"
    and "process_batches dv True pre cn fp bs ks m = (None, m')"
  shows "mirrors c' m'"
  using assms
proof (induction ks arbitrary: c m)
  case Nil
  then show ?case by simp
next
  case (Cons k ks)
  from Cons.prems(2) obtain c1 where c: "process_batch dv False pre cn fp bs k c = (None, c1)"
    "process_batches dv False pre cn fp bs ks c1 = (None, c')"
    by (auto split: prod.splits option.splits)
  from Cons.prems(3) obtain m1 where m: "process_batch dv True pre cn fp bs k m = (None, m1)"
    "process_batches dv True pre cn fp bs ks m1 = (None, m')"
    by (auto split: prod.splits option.splits)
  from mirrors_process_batch [OF Cons.prems(1) c(1) m(1)] have "mirrors c1 m1" .
  from Cons.IH [OF this c(2) m(2)] show ?case .
qed

lemma example_copy_run:
  "organize_files_into_batches star_match all_buffered (Some example_dir) 2 ''Batch''
     ''.txt'' ''.jpg'' ''combined.txt'' False = (Completed, Some example_copied)"
  by code_simp

lemma example_move_run:
  "organize_files_into_batches star_match all_buffered (Some example_dir) 2 ''Batch''
     ''.txt'' ''.jpg'' ''combined.txt'' True = (Completed, Some example_moved)"
  by code_simp

lemma organize_Completed:
  assumes "organize_files_into_batches fnm dv fs bs pre te ie cn mv = (Completed, Some n')"
  shows "\<exists>n fp. fs = Some n \<and> discover fnm n te ie = Inr fp \<and> fp \<noteq> [] \<and> bs \<noteq> 0
           \<and> process_batches dv mv pre cn fp bs (batch_range fp bs) n = (None, n')"
proof (cases fs)
  case None
  with assms show ?thesis by (simp add: organize_files_into_batches_def)
next
  case (Some n)
  show ?thesis
  proof (cases "discover fnm n te ie")
    case (Inl e)
    with assms Some show ?thesis
      unfolding organize_files_into_batches_def by (simp only: option.case sum.case) simp
  next
    case (Inr fp)
    have ne: "fp \<noteq> []"
    proof
      assume "fp = []"
      with assms Some Inr show False
        unfolding organize_files_into_batches_def by (simp only: option.case sum.case) simp
    qed
    have nz: "bs \<noteq> 0"
    proof
      assume "bs = 0"
      with assms Some Inr ne show False
        unfolding organize_files_into_batches_def by (simp only: option.case sum.case) simp
    qed
    from organize_processes [OF Inr ne nz, of dv pre cn mv] assms Some
    have "process_batches dv mv pre cn fp bs (batch_range fp bs) n = (None, n')"
      by (auto split: prod.splits option.splits)
    with Some Inr ne nz show ?thesis by simp
  qed
qed

text \<open>
  C9. When the run in copy mode and the run in move mode both complete from the same
  initial file system, the combined-text file of each batch folder is the same in the two
  final states: the documents are read from the batch folder, where both modes have put
  the same files.
\<close>

theorem combined_text_mode_independent:
  assumes "organize_files_into_batches fnm disk_view fs batch_size folder_prefix text_ext
             image_ext combined_name False = (Completed, Some copied)"
    and "organize_files_into_batches fnm disk_view fs batch_size folder_prefix text_ext
             image_ext combined_name True = (Completed, Some moved)"
  shows "lookup copied [folder_name folder_prefix batch_num, combined_name] =
           lookup moved [folder_name folder_prefix batch_num, combined_name]
       \<and> read_text copied [folder_name folder_prefix batch_num, combined_name] =
           read_text moved [folder_name folder_prefix batch_num, combined_name]"
proof -
  from organize_Completed [OF assms(1)] obtain n fp where c: "fs = Some n"
    "discover fnm n text_ext image_ext = Inr fp"
    "process_batches disk_view False folder_prefix combined_name fp batch_size
       (batch_range fp batch_size) n = (None, copied)"
    by blast
  from organize_Completed [OF assms(2)] c(1,2)
  have m: "process_batches disk_view True folder_prefix combined_name fp batch_size
       (batch_range fp batch_size) n = (None, moved)"
    by auto
  from mirrors_process_batches [OF mirrors_refl c(3) m] have "mirrors copied moved" .
  from mirrors_lookup [OF this, of "folder_name folder_prefix batch_num" combined_name "[]"]
  show ?thesis by (simp only: read_text_def simp_thms)
qed

theorem combined_text_mode_independent_witness:
  "organize_files_into_batches star_match all_buffered (Some example_dir) 2 ''Batch''
     ''.txt'' ''.jpg'' ''combined.txt'' False = (Completed, Some example_copied)
   \<and> organize_files_into_batches star_match all_buffered (Some example_dir) 2 ''Batch''
     ''.txt'' ''.jpg'' ''combined.txt'' True = (Completed, Some example_moved)
   \<and> read_text example_copied [folder_name ''Batch'' 0, ''combined.txt''] =
       Inr (''A'' @ separator @ ''B'')
   \<and> read_text example_moved [folder_name ''Batch'' 0, ''combined.txt''] =
       Inr (''A'' @ separator @ ''B'')"
proof -
  have "read_text example_copied [folder_name ''Batch'' 0, ''combined.txt''] =
       Inr (''A'' @ separator @ ''B'')"
    by code_simp
  with combined_text_mode_independent [OF example_copy_run example_move_run, of 0]
    example_copy_run example_move_run
  show ?thesis by simp
qed

section \<open>The combined file\<close>











lemma close_w_read:
  assumes "open_w n [b, cn] = Inr n0"
  shows "read_text (close_w n0 [b, cn] writes) [b, cn] = Inr (concat writes)"
proof -
  from close_w_root [OF assms, of writes] obtain f0 f' where f: "entry n0 b = Some f0"
    "put f0 [cn] (File (Text (concat writes))) = Inr f'"
    "\<forall>z. entry (close_w n0 [b, cn] writes) z = (if z = b then Some f' else entry n0 z)"
    by blast
  from put_single [OF f(2)] f(3) show ?thesis by (simp add: read_text_def)
qed






section \<open>What a completed run leaves of the originals\<close>













lemma keeps_refl: "keeps F n n"
  by (simp add: keeps_def)

lemma keeps_trans: "keeps F n n1 \<Longrightarrow> keeps F n1 n2 \<Longrightarrow> keeps F n n2"
  unfolding keeps_def by blast

lemma keeps_absent: "keeps F n n' \<Longrightarrow> x \<notin> F \<Longrightarrow> entry n x = None \<Longrightarrow> entry n' x = None"
  by (simp add: keeps_def)

lemma keeps_present:
  "keeps F n n' \<Longrightarrow> b \<in> F \<Longrightarrow> path_exists n [b, y] \<Longrightarrow> path_exists n' [b, y]"
  by (simp add: keeps_def)

lemma path_exists_folder:
  "path_exists n [b, y] \<longleftrightarrow> (\<exists>m. entry n b = Some m \<and> entry m y \<noteq> None)"
  by (auto simp: path_exists_def split: option.splits)

lemma path_exists_single: "path_exists n [x] \<longleftrightarrow> entry n x \<noteq> None"
  by (auto simp: path_exists_def split: option.splits)

lemma keeps_folder_update:
  assumes "entry n b = Some m" and "put m (z # q) v = Inr m'" and "b \<in> F"
    and "\<forall>x. entry n' x = (if x = b then Some m' else entry n x)"
  shows "keeps F n n'"
  unfolding keeps_def
proof (intro conjI allI impI)
  fix x assume "x \<notin> F" "entry n x = None"
  with assms(3,4) show "entry n' x = None" by auto
next
  fix c y assume c: "c \<in> F" "path_exists n [c, y]"
  show "path_exists n' [c, y]"
  proof (cases "c = b")
    case True
    with c(2) assms(1) have "entry m y \<noteq> None" by (simp add: path_exists_folder)
    from put_entry_mono [OF assms(2) this] assms(4) True show ?thesis
      by (simp add: path_exists_folder)
  next
    case False
    with c(2) assms(4) show ?thesis by (simp add: path_exists_folder)
  qed
qed

lemma keeps_mkdir:
  assumes "mkdir_exist_ok n [b] = Inr n'" and "b \<in> F"
  shows "keeps F n n'"
  using mkdir_root [OF assms(1)]
proof
  assume "n' = n \<and> (\<exists>es. entry n b = Some (Dir es))"
  then show ?thesis by (simp add: keeps_refl)
next
  assume a: "entry n b = None \<and> (\<forall>z. entry n' z = (if z = b then Some (Dir []) else entry n z))"
  show ?thesis unfolding keeps_def
  proof (intro conjI allI impI)
    fix x assume "x \<notin> F" "entry n x = None"
    with a assms(2) show "entry n' x = None" by auto
  next
    fix c y assume "c \<in> F" "path_exists n [c, y]"
    with a show "path_exists n' [c, y]" by (cases "c = b") (simp_all add: path_exists_folder)
  qed
qed

lemma keeps_move:
  assumes "move n [x] [b, y] = Inr n'" and "x \<notin> F" and "b \<in> F"
  shows "keeps F n n'" and "entry n' x = None" and "path_exists n' [b, y]"
proof -
  from move_root [OF assms(1)] obtain v m m'
    where m: "entry n x = Some v" "x \<noteq> b" "entry n b = Some m"
      "put m (landing m y x) v = Inr m'"
      "\<forall>z. entry n' z = (if z = b then Some m' else if z = x then None else entry n z)"
    by blast
  obtain z q where l: "landing m y x = z # q" using landing_Cons by blast
  from m(2,5) show "entry n' x = None" by simp
  have "entry m' y \<noteq> None"
  proof (cases "is_dir m [y]")
    case True
    then have "entry m y \<noteq> None" by (auto simp: is_dir_def split: option.splits)
    from put_entry_mono [OF _ this] m(4) l True show ?thesis by (simp add: landing_def)
  next
    case False
    with m(4) have "put m [y] v = Inr m'" by (simp add: landing_def)
    from put_single [OF this] show ?thesis by simp
  qed
  with m(5) show "path_exists n' [b, y]" by (simp add: path_exists_folder)
  show "keeps F n n'" unfolding keeps_def
  proof (intro conjI allI impI)
    fix u assume "u \<notin> F" "entry n u = None"
    with m(5) assms(3) show "entry n' u = None" by auto
  next
    fix c u assume c: "c \<in> F" "path_exists n [c, u]"
    with assms(2) have cx: "c \<noteq> x" by auto
    show "path_exists n' [c, u]"
    proof (cases "c = b")
      case True
      with c(2) m(3) have "entry m u \<noteq> None" by (simp add: path_exists_folder)
      from put_entry_mono [OF _ this] m(4) l have "entry m' u \<noteq> None" by simp
      with m(5) True show ?thesis by (simp add: path_exists_folder)
    next
      case False
      with c(2) m(5) cx show ?thesis by (simp add: path_exists_folder)
    qed
  qed
qed

lemma keeps_concatenate:
  assumes "concatenate dv b cn batch n = (None, n')" and "b \<in> F"
  shows "keeps F n n'"
proof -
  from assms(1) obtain n0 w where n0: "open_w n [b, cn] = Inr n0"
    and n': "n' = close_w n0 [b, cn] w"
    by (auto simp: concatenate_def Let_def split: sum.splits prod.splits)
  from open_w_root [OF n0] assms(2) have "keeps F n n0"
    by (auto intro: keeps_folder_update)
  moreover from close_w_root [OF n0, of w] assms(2) have "keeps F n0 n'"
    unfolding n' by (auto intro: keeps_folder_update)
  ultimately show ?thesis by (rule keeps_trans)
qed

lemma moved_into_keeps:
  assumes "moved_into n b p" and "keeps F n n'" and "b \<in> F" and "fst p \<notin> F" and "snd p \<notin> F"
  shows "moved_into n' b p"
proof -
  from assms(1) have a: "entry n (fst p) = None" "entry n (snd p) = None"
    and b: "path_exists n [b, fst p]" "path_exists n [b, snd p]"
    by (simp_all add: moved_into_def path_exists_single)
  from keeps_absent [OF assms(2,4) a(1)] keeps_absent [OF assms(2,5) a(2)]
    keeps_present [OF assms(2,3) b(1)] keeps_present [OF assms(2,3) b(2)]
  show ?thesis by (simp add: moved_into_def path_exists_single)
qed

lemma moves_transfer_pairs:
  assumes "transfer_pairs True b ps n = (None, n')" and "b \<in> F"
    and "\<forall>p \<in> set ps. fst p \<notin> F \<and> snd p \<notin> F"
  shows "keeps F n n' \<and> (\<forall>p \<in> set ps. moved_into n' b p)"
  using assms(1,3)
proof (induction ps arbitrary: n)
  case Nil
  then show ?case by (simp add: keeps_refl)
next
  case (Cons p ps)
  obtain t i where p: "p = (t, i)" by (cases p)
  from Cons.prems(2) have ti: "t \<notin> F" "i \<notin> F" and rest: "\<forall>p \<in> set ps. fst p \<notin> F \<and> snd p \<notin> F"
    by (simp_all add: p)
  from Cons.prems(1) obtain n1 n2 where m:
    "move n [t] [b, t] = Inr n1" "move n1 [i] [b, i] = Inr n2"
    "transfer_pairs True b ps n2 = (None, n')"
    unfolding p by (auto simp: transfer_def split: sum.splits)
  note k1 = keeps_move [OF m(1) ti(1) assms(2)]
  note k2 = keeps_move [OF m(2) ti(2) assms(2)]
  from Cons.IH [OF m(3) rest] have k3: "keeps F n2 n'" and ps: "\<forall>p \<in> set ps. moved_into n' b p"
    by simp_all
  from keeps_absent [OF k2(1) ti(1) k1(2)] keeps_present [OF k2(1) assms(2) k1(3)] k2(2,3)
  have "moved_into n2 b (t, i)" by (simp add: moved_into_def path_exists_single)
  from moved_into_keeps [OF this k3 assms(2)] ti have "moved_into n' b p" by (simp add: p)
  moreover from k1(1) k2(1) k3 have "keeps F n n'" by (blast intro: keeps_trans)
  ultimately show ?case using ps by simp
qed

lemma set_batch_pairs: "set (batch_pairs fp bs k) \<subseteq> set fp"
  unfolding batch_pairs_def py_slice_def Let_def
  by (meson set_take_subset set_drop_subset subset_trans)

lemma moves_process_batch:
  assumes "process_batch dv True pre cn fp bs k n = (None, n')"
    and "folder_name pre k \<in> F" and "\<forall>p \<in> set fp. fst p \<notin> F \<and> snd p \<notin> F"
  shows "keeps F n n' \<and> (\<forall>p \<in> set (batch_pairs fp bs k). moved_into n' (folder_name pre k) p)"
proof -
  let ?b = "folder_name pre k" and ?batch = "batch_pairs fp bs k"
  from assms(1) obtain n1 n2 where c: "mkdir_exist_ok n [?b] = Inr n1"
     "transfer_pairs True ?b ?batch n1 = (None, n2)"
     "concatenate dv ?b cn ?batch n2 = (None, n')"
    by (auto simp: process_batch_def Let_def split: sum.splits prod.splits option.splits)
  from assms(3) set_batch_pairs [of fp bs k]
  have out: "\<forall>p \<in> set ?batch. fst p \<notin> F \<and> snd p \<notin> F" by blast
  note k1 = keeps_mkdir [OF c(1) assms(2)]
  from moves_transfer_pairs [OF c(2) assms(2) out]
  have k2: "keeps F n1 n2" and mv: "\<forall>p \<in> set ?batch. moved_into n2 ?b p" by simp_all
  note k3 = keeps_concatenate [OF c(3) assms(2)]
  from mv k3 assms(2) out have "\<forall>p \<in> set ?batch. moved_into n' ?b p"
    by (blast intro: moved_into_keeps)
  moreover from k1 k2 k3 have "keeps F n n'" by (blast intro: keeps_trans)
  ultimately show ?thesis by simp
qed

lemma moves_process_batches:
  assumes "process_batches dv True pre cn fp bs ks n = (None, n')"
    and "\<forall>k \<in> set ks. folder_name pre k \<in> F" and "\<forall>p \<in> set fp. fst p \<notin> F \<and> snd p \<notin> F"
  shows "keeps F n n'
       \<and> (\<forall>k \<in> set ks. \<forall>p \<in> set (batch_pairs fp bs k). moved_into n' (folder_name pre k) p)"
  using assms(1,2)
proof (induction ks arbitrary: n)
  case Nil
  then show ?case by (simp add: keeps_refl)
next
  case (Cons k ks)
  from Cons.prems(1) obtain n1 where c: "process_batch dv True pre cn fp bs k n = (None, n1)"
    "process_batches dv True pre cn fp bs ks n1 = (None, n')"
    by (auto split: prod.splits option.splits)
  from Cons.prems(2) have kF: "folder_name pre k \<in> F" and ksF: "\<forall>k \<in> set ks. folder_name pre k \<in> F"
    by simp_all
  from moves_process_batch [OF c(1) kF assms(3)]
  have k1: "keeps F n n1" and b1: "\<forall>p \<in> set (batch_pairs fp bs k). moved_into n1 (folder_name pre k) p"
    by simp_all
  from Cons.IH [OF c(2) ksF]
  have k2: "keeps F n1 n'"
    and b2: "\<forall>j \<in> set ks. \<forall>p \<in> set (batch_pairs fp bs j). moved_into n' (folder_name pre j) p"
    by simp_all
  from assms(3) set_batch_pairs [of fp bs k]
  have out: "\<forall>p \<in> set (batch_pairs fp bs k). fst p \<notin> F \<and> snd p \<notin> F" by blast
  with b1 k2 kF have "\<forall>p \<in> set (batch_pairs fp bs k). moved_into n' (folder_name pre k) p"
    by (blast intro: moved_into_keeps)
  moreover from k1 k2 have "keeps F n n'" by (rule keeps_trans)
  ultimately show ?case using b2 by simp
qed



lemma example_folders:
  "folder_name ''Batch'' 0 = ''Batch_01''" "folder_name ''Batch'' (Suc 0) = ''Batch_02''"
  by code_simp+

section \<open>The batch folders of a completed run\<close>

lemma digit_value_nth:
  assumes "d < 10"
  shows "digit_value (''0123456789'' ! d) = d"
proof -
  from assms have "d \<in> {0, 1, 2, 3, 4, 5, 6, 7, 8, 9}" by auto
  then show ?thesis by (auto simp: digit_value_def)
qed

lemma decimal_value_snoc: "decimal_value (s @ [c]) = 10 * decimal_value s + digit_value c"
  by (simp add: decimal_value_def)

lemma decimal_value_decimal: "decimal_value (decimal k) = k"
proof (induction k rule: decimal.induct)
  case (1 k)
  show ?case
  proof (cases "k < 10")
    case True
    then show ?thesis
      by (simp add: decimal.simps [of k] decimal_value_def digit_value_nth)
  next
    case False
    with 1 have "decimal_value (decimal (k div 10)) = k div 10" by simp
    moreover have "digit_value (''0123456789'' ! (k mod 10)) = k mod 10"
      by (rule digit_value_nth) simp
    ultimately show ?thesis using False
      by (simp add: decimal.simps [of k] decimal_value_snoc del: decimal.simps)
  qed
qed

lemma decimal_value_zeros: "decimal_value (replicate m (CHR ''0'') @ s) = decimal_value s"
proof -
  have "foldl (\<lambda>a c. 10 * a + digit_value c) 0 (replicate m (CHR ''0'')) = 0"
    by (induction m) (simp_all add: digit_value_def)
  then show ?thesis by (simp add: decimal_value_def)
qed

lemma folder_name_inj:
  assumes "folder_name pre j = folder_name pre k"
  shows "j = k"
proof -
  from assms have "zero_pad2 (decimal (j + 1)) = zero_pad2 (decimal (k + 1))"
    by (simp add: folder_name_def)
  then have "decimal_value (zero_pad2 (decimal (j + 1))) = decimal_value (zero_pad2 (decimal (k + 1)))"
    by simp
  then show ?thesis
    by (simp add: zero_pad2_def decimal_value_zeros decimal_value_decimal del: decimal.simps)
qed

lemma distinct_folder_names: "distinct (map (folder_name pre) [0 ..< m])"
  by (simp add: distinct_map inj_on_def) (blast dest: folder_name_inj)

lemma process_batches_append:
  "process_batches dv mv pre cn fp bs (ks1 @ ks2) n =
     (case process_batches dv mv pre cn fp bs ks1 n of
        (Some e, n1) \<Rightarrow> (Some e, n1)
      | (None, n1) \<Rightarrow> process_batches dv mv pre cn fp bs ks2 n1)"
  by (induction ks1 arbitrary: n) (auto split: prod.splits option.splits)

lemma process_batches_split:
  assumes "process_batches dv mv pre cn fp bs [0 ..< m] n = (None, n')" and "k < m"
  shows "\<exists>before after.
           process_batches dv mv pre cn fp bs [0 ..< k] n = (None, before)
         \<and> process_batch dv mv pre cn fp bs k before = (None, after)
         \<and> process_batches dv mv pre cn fp bs [Suc k ..< m] after = (None, n')"
proof -
  from assms(2) have "[0 ..< k + (m - k)] = [0 ..< k] @ [k ..< k + (m - k)]"
    by (intro upt_add_eq_append) simp
  with assms(2) have "[0 ..< m] = [0 ..< k] @ k # [Suc k ..< m]"
    by (simp add: upt_conv_Cons)
  with assms(1) show ?thesis
    by (auto simp: process_batches_append split: prod.splits option.splits)
qed

lemma process_batch_folder:
  assumes "process_batch dv mv pre cn fp bs k n = (None, n')"
  shows "is_dir n' [folder_name pre k]" and "path_exists n' [folder_name pre k, cn]"
proof -
  let ?b = "folder_name pre k"
  from assms obtain n2 where "concatenate dv ?b cn (batch_pairs fp bs k) n2 = (None, n')"
    by (auto simp: process_batch_def Let_def split: sum.splits prod.splits option.splits)
  then obtain n0 w where n0: "open_w n2 [?b, cn] = Inr n0" and n': "n' = close_w n0 [?b, cn] w"
    by (auto simp: concatenate_def Let_def split: sum.splits prod.splits)
  from close_w_read [OF n0, of w] have r: "read_text n' [?b, cn] = Inr (concat w)"
    by (simp add: n')
  then obtain m where m: "entry n' ?b = Some m" "entry m cn \<noteq> None"
    by (auto simp: read_text_def split: option.splits)
  then show "path_exists n' [?b, cn]" by (simp add: path_exists_folder)
  from m show "is_dir n' [?b]" by (cases m) (simp_all add: is_dir_def)
qed

lemma keeps_copy2:
  assumes "copy2 n [x] [b, y] = Inr n'" and "b \<in> F"
  shows "keeps F n n'"
proof -
  from copy2_root [OF assms(1)] obtain c m m' where m: "entry n b = Some m"
    "put m (landing m y x) (File c) = Inr m'"
    "\<forall>z. entry n' z = (if z = b then Some m' else entry n z)"
    by blast
  obtain z q where "landing m y x = z # q" using landing_Cons by blast
  with m assms(2) show ?thesis by (auto intro: keeps_folder_update)
qed

lemma copies_transfer_pairs:
  assumes "transfer_pairs False b ps n = (None, n')" and "b \<in> F"
  shows "keeps F n n'"
  using assms(1)
proof (induction ps arbitrary: n)
  case Nil
  then show ?case by (simp add: keeps_refl)
next
  case (Cons p ps)
  obtain t i where p: "p = (t, i)" by (cases p)
  from Cons.prems obtain n1 n2 where c:
    "copy2 n [t] [b, t] = Inr n1" "copy2 n1 [i] [b, i] = Inr n2"
    "transfer_pairs False b ps n2 = (None, n')"
    unfolding p by (auto simp: transfer_def split: sum.splits)
  from keeps_copy2 [OF c(1) assms(2)] keeps_copy2 [OF c(2) assms(2)] Cons.IH [OF c(3)]
  show ?case by (blast intro: keeps_trans)
qed

lemma keeps_process_batch:
  assumes "process_batch dv mv pre cn fp bs k n = (None, n')"
    and "folder_name pre k \<in> F" and "mv \<longrightarrow> (\<forall>p \<in> set fp. fst p \<notin> F \<and> snd p \<notin> F)"
  shows "keeps F n n'"
proof (cases mv)
  case True
  with assms moves_process_batch [of dv pre cn fp bs k n n' F] show ?thesis by simp
next
  case False
  let ?b = "folder_name pre k" and ?batch = "batch_pairs fp bs k"
  from assms(1) False obtain n1 n2 where c: "mkdir_exist_ok n [?b] = Inr n1"
     "transfer_pairs False ?b ?batch n1 = (None, n2)"
     "concatenate dv ?b cn ?batch n2 = (None, n')"
    by (auto simp: process_batch_def Let_def split: sum.splits prod.splits option.splits)
  from keeps_mkdir [OF c(1) assms(2)] copies_transfer_pairs [OF c(2) assms(2)]
    keeps_concatenate [OF c(3) assms(2)]
  show ?thesis by (blast intro: keeps_trans)
qed

lemma keeps_process_batches:
  assumes "process_batches dv mv pre cn fp bs ks n = (None, n')"
    and "\<forall>k \<in> set ks. folder_name pre k \<in> F"
    and "mv \<longrightarrow> (\<forall>p \<in> set fp. fst p \<notin> F \<and> snd p \<notin> F)"
  shows "keeps F n n'"
  using assms(1,2)
proof (induction ks arbitrary: n)
  case Nil
  then show ?case by (simp add: keeps_refl)
next
  case (Cons k ks)
  from Cons.prems(1) obtain n1 where c: "process_batch dv mv pre cn fp bs k n = (None, n1)"
    "process_batches dv mv pre cn fp bs ks n1 = (None, n')"
    by (auto split: prod.splits option.splits)
  from Cons.prems(2) have kF: "folder_name pre k \<in> F" and ksF: "\<forall>k \<in> set ks. folder_name pre k \<in> F"
    by simp_all
  from keeps_process_batch [OF c(1) kF assms(3)] Cons.IH [OF c(2) ksF]
  show ?case by (rule keeps_trans)
qed

lemma folder_of_entry:
  assumes "path_exists n [b, y]"
  shows "is_dir n [b]"
proof -
  from assms obtain m where m: "entry n b = Some m" "entry m y \<noteq> None"
    by (auto simp: path_exists_folder)
  then show ?thesis by (cases m) (simp_all add: is_dir_def)
qed

text \<open>
  C2. With at least one complete pair and a positive batch size, the number of batches
  computed is the ceiling of \<open>P / batch_size\<close>, where \<open>P\<close> is the number of complete
  pairs, and the loop visits that many batches, whose folder names differ from one
  another. A completed run processes every one of them: it is the run over the batches
  before it, the body of the loop for it, and the run over the batches after it, and
  when its body ends its folder is a directory that holds the combined file. When, in
  move mode, no paired file bears the name of a batch folder, every batch folder is a
  directory holding the combined file at the end of the run, and the batch folders are
  the only entries of the source directory that were not there before the run.
\<close>

theorem batch_count_is_ceiling:
  assumes "discover fnm n text_ext image_ext = Inr file_pairs"
    and "file_pairs \<noteq> []" and "0 < batch_size"
  shows "num_batches (int (length file_pairs)) batch_size =
           \<lceil>real (length file_pairs) / real_of_int batch_size\<rceil>
       \<and> int (length (batches file_pairs batch_size)) =
           \<lceil>real (length file_pairs) / real_of_int batch_size\<rceil>
       \<and> distinct (map (folder_name folder_prefix) [0 ..< length (batches file_pairs batch_size)])
       \<and> (organize_files_into_batches fnm disk_view (Some n) batch_size folder_prefix text_ext
             image_ext combined_name move_files = (Completed, Some n') \<longrightarrow>
            (\<forall>k < length (batches file_pairs batch_size). \<exists>before after.
                 process_batches disk_view move_files folder_prefix combined_name file_pairs
                   batch_size [0 ..< k] n = (None, before)
               \<and> process_batch disk_view move_files folder_prefix combined_name file_pairs
                   batch_size k before = (None, after)
               \<and> process_batches disk_view move_files folder_prefix combined_name file_pairs
                   batch_size [Suc k ..< length (batches file_pairs batch_size)] after = (None, n')
               \<and> is_dir after [folder_name folder_prefix k]
               \<and> path_exists after [folder_name folder_prefix k, combined_name])
          \<and> ((move_files \<longrightarrow>
                 (\<forall>k < length (batches file_pairs batch_size). \<forall>p \<in> set file_pairs.
                    fst p \<noteq> folder_name folder_prefix k \<and> snd p \<noteq> folder_name folder_prefix k)) \<longrightarrow>
               (\<forall>k < length (batches file_pairs batch_size).
                  is_dir n' [folder_name folder_prefix k]
                  \<and> path_exists n' [folder_name folder_prefix k, combined_name])
             \<and> (\<forall>x. path_exists n' [x] \<longrightarrow>
                    path_exists n [x]
                    \<or> (\<exists>k < length (batches file_pairs batch_size). x = folder_name folder_prefix k))))"
proof -
  let ?m = "length (batches file_pairs batch_size)"
  let ?pb = "process_batches disk_view move_files folder_prefix combined_name file_pairs batch_size"
  have c: "num_batches (int (length file_pairs)) batch_size =
           \<lceil>real (length file_pairs) / real_of_int batch_size\<rceil>"
    using num_batches_ceiling [OF assms(3), of "int (length file_pairs)"] by simp
  have pos: "0 < num_batches (int (length file_pairs)) batch_size"
  proof -
    obtain b where b: "batch_size = int b" "0 < b"
      using assms(3) by (metis pos_int_cases of_nat_0_less_iff)
    from assms(2) have "0 < length file_pairs" by simp
    from batch_count_bounds(2) [OF b(2) this] show ?thesis by (simp add: b(1))
  qed
  have range: "batch_range file_pairs batch_size = [0 ..< ?m]"
    by (simp add: batches_def batch_range_def)
  have l: "int ?m = \<lceil>real (length file_pairs) / real_of_int batch_size\<rceil>"
    using pos c by (simp add: batches_def batch_range_def)
  have d: "distinct (map (folder_name folder_prefix) [0 ..< ?m])"
    by (rule distinct_folder_names)
  have run: "(\<forall>k < ?m. \<exists>before after.
                 ?pb [0 ..< k] n = (None, before)
               \<and> process_batch disk_view move_files folder_prefix combined_name file_pairs
                   batch_size k before = (None, after)
               \<and> ?pb [Suc k ..< ?m] after = (None, n')
               \<and> is_dir after [folder_name folder_prefix k]
               \<and> path_exists after [folder_name folder_prefix k, combined_name])
          \<and> ((move_files \<longrightarrow>
                 (\<forall>k < ?m. \<forall>p \<in> set file_pairs.
                    fst p \<noteq> folder_name folder_prefix k \<and> snd p \<noteq> folder_name folder_prefix k)) \<longrightarrow>
               (\<forall>k < ?m. is_dir n' [folder_name folder_prefix k]
                  \<and> path_exists n' [folder_name folder_prefix k, combined_name])
             \<and> (\<forall>x. path_exists n' [x] \<longrightarrow>
                    path_exists n [x] \<or> (\<exists>k < ?m. x = folder_name folder_prefix k)))"
    if completed: "organize_files_into_batches fnm disk_view (Some n) batch_size folder_prefix text_ext
             image_ext combined_name move_files = (Completed, Some n')"
  proof (intro conjI allI impI)
    from organize_Completed [OF completed] assms(1) range
    have all: "?pb [0 ..< ?m] n = (None, n')" by auto
    define F where "F = folder_name folder_prefix ` {k. k < ?m}"
    have split: "\<exists>before after.
                 ?pb [0 ..< k] n = (None, before)
               \<and> process_batch disk_view move_files folder_prefix combined_name file_pairs
                   batch_size k before = (None, after)
               \<and> ?pb [Suc k ..< ?m] after = (None, n')
               \<and> is_dir after [folder_name folder_prefix k]
               \<and> path_exists after [folder_name folder_prefix k, combined_name]"
      if "k < ?m" for k
    proof -
      from process_batches_split [OF all that] obtain before after where s:
        "?pb [0 ..< k] n = (None, before)"
        "process_batch disk_view move_files folder_prefix combined_name file_pairs
                   batch_size k before = (None, after)"
        "?pb [Suc k ..< ?m] after = (None, n')"
        by blast
      from process_batch_folder [OF s(2)] s show ?thesis by blast
    qed
    {
      fix k assume "k < ?m"
      then show "\<exists>before after.
                 ?pb [0 ..< k] n = (None, before)
               \<and> process_batch disk_view move_files folder_prefix combined_name file_pairs
                   batch_size k before = (None, after)
               \<and> ?pb [Suc k ..< ?m] after = (None, n')
               \<and> is_dir after [folder_name folder_prefix k]
               \<and> path_exists after [folder_name folder_prefix k, combined_name]"
        by (rule split)
    }
    assume free: "move_files \<longrightarrow>
                 (\<forall>k < ?m. \<forall>p \<in> set file_pairs.
                    fst p \<noteq> folder_name folder_prefix k \<and> snd p \<noteq> folder_name folder_prefix k)"
    then have out: "move_files \<longrightarrow> (\<forall>p \<in> set file_pairs. fst p \<notin> F \<and> snd p \<notin> F)"
      by (auto simp: F_def)
    {
      fix k assume k: "k < ?m"
      from split [OF k] obtain after where a: "?pb [Suc k ..< ?m] after = (None, n')"
        "path_exists after [folder_name folder_prefix k, combined_name]" by blast
      have "\<forall>j \<in> set [Suc k ..< ?m]. folder_name folder_prefix j \<in> F" by (simp add: F_def)
      from keeps_process_batches [OF a(1) this out] have "keeps F after n'" .
      moreover from k have "folder_name folder_prefix k \<in> F" by (simp add: F_def)
      ultimately have p: "path_exists n' [folder_name folder_prefix k, combined_name]"
        using a(2) by (rule keeps_present)
      then show "path_exists n' [folder_name folder_prefix k, combined_name]" .
      from p show "is_dir n' [folder_name folder_prefix k]" by (rule folder_of_entry)
    }
    {
      fix x assume x: "path_exists n' [x]"
      have "\<forall>j \<in> set [0 ..< ?m]. folder_name folder_prefix j \<in> F" by (simp add: F_def)
      from keeps_process_batches [OF all this out] have "keeps F n n'" .
      with x have "x \<in> F \<or> entry n x \<noteq> None"
        by (auto simp: path_exists_single dest: keeps_absent)
      then show "path_exists n [x] \<or> (\<exists>k < ?m. x = folder_name folder_prefix k)"
        by (auto simp: F_def path_exists_single)
    }
  qed
  from c l d run show ?thesis by blast
qed

lemma example_no_clash:
  "\<forall>k < length (batches example_pairs 2). \<forall>p \<in> set example_pairs.
       fst p \<noteq> folder_name ''Batch'' k \<and> snd p \<noteq> folder_name ''Batch'' k"
proof (intro allI impI)
  fix k assume "k < length (batches example_pairs 2)"
  then have "k = 0 \<or> k = 1" by (auto simp: batches_example)
  then show "\<forall>p \<in> set example_pairs.
       fst p \<noteq> folder_name ''Batch'' k \<and> snd p \<noteq> folder_name ''Batch'' k"
    by (auto simp: example_folders example_pairs_def)
qed

theorem batch_count_is_ceiling_witness:
  "discover star_match example_dir ''.txt'' ''.jpg'' = Inr example_pairs
   \<and> example_pairs \<noteq> [] \<and> (0::int) < 2
   \<and> \<lceil>real (length example_pairs) / real_of_int 2\<rceil> = 2
   \<and> length (batches example_pairs 2) = 2
   \<and> organize_files_into_batches star_match all_buffered (Some example_dir) 2 ''Batch''
        ''.txt'' ''.jpg'' ''combined.txt'' True = (Completed, Some example_moved)
   \<and> \<not> path_exists example_dir [''Batch_01''] \<and> \<not> path_exists example_dir [''Batch_02'']
   \<and> is_dir example_moved [''Batch_01''] \<and> is_dir example_moved [''Batch_02'']
   \<and> path_exists example_moved [''Batch_01'', ''combined.txt'']
   \<and> path_exists example_moved [''Batch_02'', ''combined.txt'']"
proof -
  have ne: "example_pairs \<noteq> []" by (simp add: example_pairs_def)
  have pos: "(0::int) < 2" by simp
  have len: "length (batches example_pairs 2) = 2" by (simp add: batches_example)
  note t = batch_count_is_ceiling [OF discover_example ne pos, of "''Batch''" all_buffered
      "''combined.txt''" True example_moved]
  from t have c: "num_batches (int (length example_pairs)) 2 =
      \<lceil>real (length example_pairs) / real_of_int 2\<rceil>" by blast
  from t example_move_run example_no_clash
  have "\<forall>k < length (batches example_pairs 2).
          is_dir example_moved [folder_name ''Batch'' k]
          \<and> path_exists example_moved [folder_name ''Batch'' k, ''combined.txt'']"
    by blast
  then have f: "is_dir example_moved [folder_name ''Batch'' 0]
          \<and> path_exists example_moved [folder_name ''Batch'' 0, ''combined.txt'']"
      "is_dir example_moved [folder_name ''Batch'' (Suc 0)]
          \<and> path_exists example_moved [folder_name ''Batch'' (Suc 0), ''combined.txt'']"
    by (simp_all add: len)
  have a: "\<not> path_exists example_dir [''Batch_01'']" "\<not> path_exists example_dir [''Batch_02'']"
    by code_simp+
  from c f a len ne discover_example example_move_run show ?thesis
    by (simp add: num_batches_example example_folders)
qed

section \<open>Where a completed run in move mode leaves the originals\<close>






















end
